theory Spec2Isabelle
  imports Complex_Main "HOL-Library.Sublist"
begin

section \<open>The live-commentary hook: playback scheduling and completion detection\<close>

text \<open>
  The hook \<open>useLiveCommentary\<close> (src/hooks/useLiveCommentary.ts, with a second copy in
  src/components/GameCanvas.tsx) keeps its state in React refs and reacts to callbacks of
  the live session and of browser timers. The model is a state record holding the refs,
  the browser's table of outstanding timeouts and a log of the outward effects, and one
  HOL function for each callback, taking the state and returning the new one.

  JavaScript numbers (clock readings, durations, delays) are modelled as real numbers.
  A callback runs without interruption on the single-threaded event loop; what it reads
  from the browser (the audio context and its clock) is an input of the step. The handler
  \<open>onmessage\<close> is asynchronous and awaits the decoder: it is modelled in two steps, the
  part before the await and the part after it, and other callbacks may run in between.
\<close>

subsection \<open>Strings the hook shows as its status\<close>

text \<open>
  Strings are byte lists in UTF-8. The three-part prefixes are the emoji of the source:
  the studio microphone U+1F399 U+FE0F, the warning sign U+26A0 U+FE0F, the plug U+1F50C,
  the memo U+1F4DD and the speech balloon U+1F4AC.
\<close>

definition mic :: string where
  "mic = [CHR 0xF0, CHR 0x9F, CHR 0x8E, CHR 0x99, CHR 0xEF, CHR 0xB8, CHR 0x8F]"

definition warn :: string where
  "warn = [CHR 0xE2, CHR 0x9A, CHR 0xA0, CHR 0xEF, CHR 0xB8, CHR 0x8F]"

definition plug :: string where
  "plug = [CHR 0xF0, CHR 0x9F, CHR 0x94, CHR 0x8C]"

definition memo :: string where
  "memo = [CHR 0xF0, CHR 0x9F, CHR 0x93, CHR 0x9D]"

definition balloon :: string where
  "balloon = [CHR 0xF0, CHR 0x9F, CHR 0x92, CHR 0xAC]"

definition stLiveReady :: string where
  "stLiveReady = mic @ '' Live Ready''"

definition stLiveDisconnected :: string where
  "stLiveDisconnected = warn @ '' Live Disconnected''"

definition stSpeaking :: string where
  "stSpeaking = mic @ '' Speaking...''"

definition stSpeakingPrefix :: string where
  "stSpeakingPrefix = mic @ '' Speaking''"

definition stLiveErr :: string where
  "stLiveErr = warn @ '' Live Err''"

definition stLiveClosed :: string where
  "stLiveClosed = plug @ '' Live Closed''"

definition stAudioErr :: string where
  "stAudioErr = warn @ '' Audio Err''"

definition stAudioSystemErr :: string where
  "stAudioSystemErr = warn @ '' Audio System Err''"

definition stConnecting :: string where
  "stConnecting = plug @ '' Connecting Live...''"

definition stApiKeyInvalid :: string where
  "stApiKeyInvalid = warn @ '' API Key Invalid''"

definition stLiveConnectErr :: string where
  "stLiveConnectErr = warn @ '' Live Connect Err''"

definition stCreatingPrompt :: string where
  "stCreatingPrompt = memo @ '' Creating prompt...''"

definition stSending :: string where
  "stSending = balloon @ '' Sending...''"

definition stCommSendErr :: string where
  "stCommSendErr = warn @ '' Comm. Send Err''"

subsection \<open>State, browser timers and effects\<close>

text \<open>\<open>AudioContext.state\<close>.\<close>

datatype sink_state = Running | Suspended | Closed

text \<open>
  What a callback reads from the browser: \<open>audioCtxRef.current\<close> (\<open>None\<close> when it
  is null, otherwise the state of the context) and \<open>audioCtx.currentTime\<close>, in seconds.
\<close>

record env =
  audioCtx :: "sink_state option"
  currentTime :: real

text \<open>
  A pending timeout of the browser. The callback of a poll timeout is the closure
  \<open>performCheckAndAct\<close>, which carries the value of \<open>commentaryStatus\<close> it captured;
  the delay is in milliseconds. The safety-net timeout is the one whose handle the game
  engine stores in \<open>safetyNetNextBallTimeoutRef\<close>.
\<close>

datatype timer = PollTimer string real | SafetyNetTimer

text \<open>
  What the hook does to the outside: \<open>source.start(when)\<close> with a buffer of a given
  duration, the call of the pending next-ball action, the system instruction sent by
  \<open>ai.live.connect\<close>, the prompt sent by \<open>sendRealtimeInput\<close>, and the call of
  \<open>onApiKeyError\<close>.
\<close>

datatype 'a effect =
    Start real real
  | RunAction 'a
  | Connect string
  | SendRealtimeInput string
  | OnApiKeyError

datatype error =
    DecodeError
  | AudioInitError
  | AudioContextNotRunning
  | ConnectError string
  | PromptError
  | SendError

text \<open>
  A handler \<open>onmessage\<close> that is suspended at \<open>await decodeAudioDataUsed(...)\<close>
  (line 126): the payload it is decoding, whether its message completes the turn, and the
  \<open>commentaryStatus\<close> its closure captured.
\<close>

record awaited =
  chunkData :: string
  completesTurn :: bool
  capturedStatus :: string

text \<open>
  The refs of the hook, the browser's table of pending timeouts with the next handle it
  hands out, the log of the outward effects, and the handlers that are suspended at the
  decoder, in the order in which they were suspended.
\<close>

record 'a hook =
  commentaryStatus :: string
  liveSession :: bool
  isLiveSessionReady :: bool
  nextStartTime :: real
  isAudioPlaying :: bool
  pendingNextBallAction :: "'a option"
  audioCompletionCheckTimeout :: "nat option"
  safetyNetNextBallTimeout :: "nat option"
  timers :: "(nat \<times> timer) list"
  nextHandle :: nat
  log :: "'a effect list"
  awaiting :: "awaited list"

text \<open>
  The state of a freshly mounted hook: \<open>useState('')\<close>, \<open>useRef(null)\<close>,
  \<open>useRef(false)\<close>, \<open>useRef(0)\<close>; no timeout is pending, no handler is suspended
  and the browser hands out positive handles.
\<close>

definition mounted :: "'a hook" where
  "mounted = \<lparr>commentaryStatus = '''', liveSession = False, isLiveSessionReady = False,
     nextStartTime = 0, isAudioPlaying = False, pendingNextBallAction = None,
     audioCompletionCheckTimeout = None, safetyNetNextBallTimeout = None,
     timers = [], nextHandle = 1, log = [], awaiting = []\<rparr>"

text \<open>
  \<open>window.setTimeout\<close> registers the callback under a fresh handle and returns the
  handle; \<open>window.clearTimeout\<close> removes the timeout with that handle, if there is one.
\<close>

definition setTimeout :: "timer \<Rightarrow> 'a hook \<Rightarrow> nat \<times> 'a hook" where
  "setTimeout t s =
     (nextHandle s, s\<lparr>timers := timers s @ [(nextHandle s, t)], nextHandle := Suc (nextHandle s)\<rparr>)"

definition clearTimeout :: "nat \<Rightarrow> 'a hook \<Rightarrow> 'a hook" where
  "clearTimeout h s = s\<lparr>timers := filter (\<lambda>kt. fst kt \<noteq> h) (timers s)\<rparr>"

definition emit :: "'a effect \<Rightarrow> 'a hook \<Rightarrow> 'a hook" where
  "emit e s = s\<lparr>log := log s @ [e]\<rparr>"

definition setCommentaryStatus :: "string \<Rightarrow> 'a hook \<Rightarrow> 'a hook" where
  "setCommentaryStatus v s = s\<lparr>commentaryStatus := v\<rparr>"

subsection \<open>The completion detector\<close>

definition CHECK_INTERVAL_MS :: real where
  "CHECK_INTERVAL_MS = 50"

definition MARGIN_SECONDS :: real where
  "MARGIN_SECONDS = 0.15"

text \<open>
  The expression \<open>isLiveSessionReadyRef.current ? "Live Ready" : "Live Disconnected"\<close>.
\<close>

definition readyOrDisconnected :: "'a hook \<Rightarrow> string" where
  "readyOrDisconnected s = (if isLiveSessionReady s then stLiveReady else stLiveDisconnected)"

text \<open>
  The block that \<open>performCheckAndAct\<close> has twice, word for word (lines 60-68 and 78-86):
  if a next-ball action is pending, take it, empty the slot, cancel the safety-net timeout
  when its handle is truthy, and call the action.
\<close>

definition runPendingNextBallAction :: "'a hook \<Rightarrow> 'a hook" where
  "runPendingNextBallAction s =
     (case pendingNextBallAction s of
        None \<Rightarrow> s
      | Some actionToRun \<Rightarrow>
          let s1 = s\<lparr>pendingNextBallAction := None\<rparr>;
              s2 = (case safetyNetNextBallTimeout s1 of
                      None \<Rightarrow> s1
                    | Some h \<Rightarrow>
                        if h \<noteq> 0 then (clearTimeout h s1)\<lparr>safetyNetNextBallTimeout := None\<rparr>
                        else s1)
          in emit (RunAction actionToRun) s2)"

text \<open>
  \<open>performCheckAndAct\<close>; \<open>cs\<close> is the \<open>commentaryStatus\<close> captured by the closure
  (\<open>scheduleAudioCompletionCheck\<close> is a \<open>useCallback\<close> on \<open>[commentaryStatus]\<close>).
\<close>

definition performCheckAndAct :: "string \<Rightarrow> env \<Rightarrow> 'a hook \<Rightarrow> 'a hook" where
  "performCheckAndAct cs e s0 =
     (let s = s0\<lparr>audioCompletionCheckTimeout := None\<rparr> in
      if \<not> isAudioPlaying s \<or> audioCtx e \<noteq> Some Running then
        runPendingNextBallAction
          (if prefix stSpeakingPrefix cs then setCommentaryStatus (readyOrDisconnected s) s else s)
      else
        let now = currentTime e; expectedEndTime = nextStartTime s in
        if now \<ge> expectedEndTime - MARGIN_SECONDS then
          runPendingNextBallAction
            (setCommentaryStatus (readyOrDisconnected s) (s\<lparr>isAudioPlaying := False\<rparr>))
        else
          let timeToWait = max CHECK_INTERVAL_MS ((expectedEndTime - now + MARGIN_SECONDS) * 1000);
              (h, s1) = setTimeout (PollTimer cs timeToWait) s
          in s1\<lparr>audioCompletionCheckTimeout := Some h\<rparr>)"

text \<open>
  \<open>scheduleAudioCompletionCheck(reason)\<close>: cancel the poll whose handle the ref holds
  (when the handle is truthy), then run one check.
\<close>

definition scheduleAudioCompletionCheck :: "string \<Rightarrow> string \<Rightarrow> env \<Rightarrow> 'a hook \<Rightarrow> 'a hook" where
  "scheduleAudioCompletionCheck cs reason e s =
     performCheckAndAct cs e
       (case audioCompletionCheckTimeout s of
          None \<Rightarrow> s
        | Some h \<Rightarrow>
            if h \<noteq> 0 then (clearTimeout h s)\<lparr>audioCompletionCheckTimeout := None\<rparr> else s)"

subsection \<open>The playback queue and the session callbacks\<close>

text \<open>
  A message of the live session, as far as \<open>onmessage\<close> reads it:
  \<open>message.serverContent?.modelTurn\<close> (\<open>None\<close> when it is missing, otherwise its
  \<open>parts\<close>) and the truth value of \<open>message.serverContent?.turnComplete\<close>. A part
  has an optional \<open>inlineData\<close> with an optional \<open>mimeType\<close> and optional \<open>data\<close>.
\<close>

record inline_data =
  mimeType :: "string option"
  data :: "string option"

record part =
  inlineData :: "inline_data option"

record message =
  modelTurn :: "part list option"
  turnComplete :: bool

text \<open>The predicate of \<open>parts.find\<close>: \<open>p.inlineData?.mimeType?.startsWith('audio/')\<close>.\<close>

definition isAudioPart :: "part \<Rightarrow> bool" where
  "isAudioPart p =
     (case inlineData p of
        None \<Rightarrow> False
      | Some d \<Rightarrow> (case mimeType d of None \<Rightarrow> False | Some m \<Rightarrow> prefix ''audio/'' m))"

text \<open>
  \<open>audioPart?.inlineData?.data\<close> when it is truthy (a non-empty string), for the first
  audio part.
\<close>

definition audioPayload :: "part list \<Rightarrow> string option" where
  "audioPayload parts =
     (case find isAudioPart parts of
        None \<Rightarrow> None
      | Some p \<Rightarrow>
          (case inlineData p of
             None \<Rightarrow> None
           | Some d \<Rightarrow> (case data d of None \<Rightarrow> None | Some x \<Rightarrow> if x = [] then None else Some x)))"

text \<open>
  The end of \<open>onmessage\<close> for a message with a model turn (lines 134-136): arm the
  detector if the message completes the turn.
\<close>

definition onmessage_end :: "string \<Rightarrow> env \<Rightarrow> bool \<Rightarrow> 'a hook \<Rightarrow> 'a hook" where
  "onmessage_end cs e tc s =
     (if tc then scheduleAudioCompletionCheck cs ''model_turn_content_complete'' e s else s)"

text \<open>
  \<open>onmessage\<close> from its start to its end or to its await (lines 114-126). With an audio
  payload and the audio context running it moves the cursor if nothing is playing, sets
  the playing flag, hands the payload to the decoder and is suspended; the rest of it
  waits among the suspended handlers. Otherwise it runs to its end.
\<close>

definition onmessage :: "string \<Rightarrow> env \<Rightarrow> message \<Rightarrow> 'a hook \<Rightarrow> 'a hook" where
  "onmessage cs e msg s =
     (case modelTurn msg of
        Some parts \<Rightarrow>
          (case audioPayload parts of
             None \<Rightarrow> onmessage_end cs e (turnComplete msg) s
           | Some d \<Rightarrow>
               if audioCtx e = Some Running then
                 let s1 = (if \<not> isAudioPlaying s
                           then s\<lparr>nextStartTime := max (nextStartTime s) (currentTime e)\<rparr> else s);
                     s2 = s1\<lparr>isAudioPlaying := True\<rparr>
                 in s2\<lparr>awaiting := awaiting s2 @
                      [\<lparr>chunkData = d, completesTurn = turnComplete msg, capturedStatus = cs\<rparr>]\<rparr>
               else onmessage_end cs e (turnComplete msg) s)
      | None \<Rightarrow>
          (if turnComplete msg
           then scheduleAudioCompletionCheck cs ''server_ack_turn_complete'' e s
           else s))"

text \<open>
  \<open>onmessage\<close> from its await to its end (lines 126-136), run when the decoder has
  settled; \<open>e\<close> is what the browser shows then. The decoder (\<open>decodeUsed\<close> followed
  by \<open>decodeAudioDataUsed\<close>, of utils/audioUtils) is the parameter \<open>dec\<close>: it maps
  the payload to the duration of the decoded buffer, or to the error it throws. A throw
  rejects the handler and nothing more of it runs; a throw of \<open>decodeUsed\<close>, which
  comes before the await, is taken with the decoder's: the state of the hook is the same.
  Otherwise the buffer is started at the cursor as it is now, the cursor is advanced and
  the status set; the playing flag is not written again. \<open>audioCtxRef.current\<close> was
  not null when the handler was suspended and is assigned only while it is null (line 36),
  so the calls on it after the await do not depend on what the browser shows.
\<close>

definition onmessage_resume ::
  "(string \<Rightarrow> error + real) \<Rightarrow> env \<Rightarrow> awaited \<Rightarrow> 'a hook \<Rightarrow> 'a hook \<times> error option" where
  "onmessage_resume dec e k s =
     (case dec (chunkData k) of
        Inl err \<Rightarrow> (s, Some err)
      | Inr duration \<Rightarrow>
          let s3 = emit (Start (nextStartTime s) duration) s;
              s4 = s3\<lparr>nextStartTime := nextStartTime s3 + duration\<rparr>;
              s5 = setCommentaryStatus stSpeaking s4
          in (onmessage_end (capturedStatus k) e (completesTurn k) s5, None))"

text \<open>
  The decoder of the suspended handler number \<open>i\<close> settles: the handler leaves the
  suspended ones and runs to its end. Decoders may settle in any order.
\<close>

definition decoded ::
  "(string \<Rightarrow> error + real) \<Rightarrow> nat \<Rightarrow> env \<Rightarrow> 'a hook \<Rightarrow> 'a hook \<times> error option" where
  "decoded dec i e s =
     (if i < length (awaiting s)
      then onmessage_resume dec e (awaiting s ! i)
             (s\<lparr>awaiting := take i (awaiting s) @ drop (Suc i) (awaiting s)\<rparr>)
      else (s, None))"

text \<open>
  A message that is handled with nothing in between: the decoder of the handler that the
  message has suspended, if it has suspended one, settles before any other callback, when
  the browser shows \<open>e'\<close>.
\<close>

definition onmessage_uninterrupted ::
  "(string \<Rightarrow> error + real) \<Rightarrow> string \<Rightarrow> env \<Rightarrow> env \<Rightarrow> message \<Rightarrow> 'a hook \<Rightarrow> 'a hook \<times> error option" where
  "onmessage_uninterrupted dec cs e e' msg s =
     (let s1 = onmessage cs e msg s in
      if length (awaiting s1) = Suc (length (awaiting s))
      then decoded dec (length (awaiting s)) e' s1
      else (s1, None))"

definition onopen :: "'a hook \<Rightarrow> 'a hook" where
  "onopen s = setCommentaryStatus stLiveReady (s\<lparr>isLiveSessionReady := True\<rparr>)"

definition onerror :: "string \<Rightarrow> env \<Rightarrow> 'a hook \<Rightarrow> 'a hook" where
  "onerror cs e s =
     scheduleAudioCompletionCheck cs ''live_onerror'' e
       ((setCommentaryStatus stLiveErr (s\<lparr>isLiveSessionReady := False\<rparr>))\<lparr>isAudioPlaying := False\<rparr>)"

definition onclose :: "string \<Rightarrow> env \<Rightarrow> 'a hook \<Rightarrow> 'a hook" where
  "onclose cs e s =
     scheduleAudioCompletionCheck cs ''live_onclose'' e
       ((setCommentaryStatus stLiveClosed
           (s\<lparr>isLiveSessionReady := False, liveSession := False\<rparr>))\<lparr>isAudioPlaying := False\<rparr>)"

text \<open>
  \<open>triggerDynamicCommentary\<close>. Its inputs from outside: whether \<open>process.env.API_KEY\<close>
  is set, what \<open>createPromptForLiveCommentary\<close> gives (a prompt, or a throw) and whether
  \<open>sendRealtimeInput\<close> succeeds.
\<close>

definition triggerDynamicCommentary ::
  "bool \<Rightarrow> error + string \<Rightarrow> bool \<Rightarrow> string \<Rightarrow> env \<Rightarrow> 'a hook \<Rightarrow> bool \<times> 'a hook" where
  "triggerDynamicCommentary apiKey prompt sendOk cs e s =
     (if \<not> apiKey \<or> \<not> liveSession s \<or> \<not> isLiveSessionReady s then (False, s)
      else
        let caught = (\<lambda>s'. (False,
              scheduleAudioCompletionCheck cs ''commentary_trigger_error'' e
                ((setCommentaryStatus stCommSendErr s')\<lparr>isAudioPlaying := False\<rparr>)));
            s1 = setCommentaryStatus stCreatingPrompt s
        in (case prompt of
              Inl err \<Rightarrow> caught s1
            | Inr promptText \<Rightarrow>
                if promptText \<noteq> [] then
                  let s2 = setCommentaryStatus stSending s1 in
                  if sendOk then (True, emit (SendRealtimeInput promptText) s2) else caught s2
                else (False, s1)))"

subsection \<open>Starting a session\<close>

definition initialSystemPrompt :: string where
  "initialSystemPrompt =
     ''You are a cricket commentator for an arcade game. Adopt the persona of a classic, '' @
     ''old-school Yorkshireman: a bit grumpy, cynical, and not easily impressed, but with '' @
     ''a dry wit. Your commentary should be short, reactive, and in character. Do not '' @
     ''mention being an AI.''"

text \<open>What \<open>ai.live.connect\<close> does: it resolves, or it throws an error with a message.\<close>

datatype connect_result = Connected | ConnectFailed string

text \<open>
  \<open>initLiveSession\<close>. \<open>audioOk\<close> says whether \<open>initAudioContext()\<close> resolved; \<open>e\<close>
  is what the browser shows afterwards.
\<close>

definition initLiveSession ::
  "bool \<Rightarrow> env \<Rightarrow> connect_result \<Rightarrow> 'a hook \<Rightarrow> 'a hook \<times> error option" where
  "initLiveSession audioOk e conn s0 =
     (let s = (if liveSession s0 then s0\<lparr>liveSession := False, isLiveSessionReady := False\<rparr> else s0) in
      if \<not> audioOk then (setCommentaryStatus stAudioErr s, Some AudioInitError)
      else if audioCtx e \<noteq> Some Running
      then (setCommentaryStatus stAudioSystemErr s, Some AudioContextNotRunning)
      else
        let s1 = s\<lparr>nextStartTime := currentTime e, isAudioPlaying := False\<rparr>;
            s2 = emit (Connect initialSystemPrompt) (setCommentaryStatus stConnecting s1)
        in (case conn of
              Connected \<Rightarrow> (s2\<lparr>liveSession := True\<rparr>, None)
            | ConnectFailed errorMessage \<Rightarrow>
                let s3 = (if sublist ''service is currently unavailable'' errorMessage
                             \<or> sublist ''entity was not found'' errorMessage
                          then emit OnApiKeyError (setCommentaryStatus stApiKeyInvalid s2)
                          else setCommentaryStatus stLiveConnectErr s2)
                in (s3\<lparr>isAudioPlaying := False\<rparr>, Some (ConnectError errorMessage))))"

subsection \<open>The slot of the pending next-ball action\<close>

text \<open>
  Modelled from the spec: the hook hands \<open>pendingNextBallActionRef\<close> and
  \<open>safetyNetNextBallTimeoutRef\<close> to the game engine (hooks/useGameEngine), which sets
  the pending action and starts the safety-net timeout; that file is not among the
  sources. Section 4.3 of the spec: \<open>setPendingAction(fn)\<close> stores \<open>fn\<close>, replacing any
  previous pending action, and starts a safety-net timer; whenever the pending action is
  replaced, an outstanding safety-net timer is cancelled first.
\<close>

definition setPendingAction :: "'a \<Rightarrow> 'a hook \<Rightarrow> 'a hook" where
  "setPendingAction fn s =
     (let s1 = (case safetyNetNextBallTimeout s of
                  None \<Rightarrow> s
                | Some h \<Rightarrow> (clearTimeout h s)\<lparr>safetyNetNextBallTimeout := None\<rparr>);
          (h, s2) = setTimeout SafetyNetTimer (s1\<lparr>pendingNextBallAction := Some fn\<rparr>)
      in s2\<lparr>safetyNetNextBallTimeout := Some h\<rparr>)"

text \<open>
  Modelled from the spec: the callback of the safety-net timeout, of the same missing file.
  Section 4.3: \<open>consumeAndRun()\<close>, if a pending action exists, cancels the safety-net timer,
  clears the slot and invokes the action; the safety-net timer, when it fires first,
  performs the same sequence.
\<close>

definition consumeAndRun :: "'a hook \<Rightarrow> 'a hook" where
  "consumeAndRun s =
     (case pendingNextBallAction s of
        None \<Rightarrow> s
      | Some fn \<Rightarrow>
          let s1 = (case safetyNetNextBallTimeout s of
                      None \<Rightarrow> s
                    | Some h \<Rightarrow> (clearTimeout h s)\<lparr>safetyNetNextBallTimeout := None\<rparr>)
          in emit (RunAction fn) (s1\<lparr>pendingNextBallAction := None\<rparr>))"

subsection \<open>Runs of the event loop\<close>

text \<open>
  A timeout that is due fires: the browser takes it out of its table and calls its
  callback. A handle that is not in the table (never set, cancelled, or already fired)
  calls nothing. The callback of a poll is \<open>performCheckAndAct\<close>; the callback of the
  safety-net timeout is \<open>consumeAndRun\<close>, modelled from the spec above.
\<close>

definition fireTimeout :: "nat \<Rightarrow> env \<Rightarrow> 'a hook \<Rightarrow> 'a hook" where
  "fireTimeout h e s =
     (case map_of (timers s) h of
        None \<Rightarrow> s
      | Some (PollTimer cs ms) \<Rightarrow> performCheckAndAct cs e (clearTimeout h s)
      | Some SafetyNetTimer \<Rightarrow> consumeAndRun (clearTimeout h s))"

text \<open>
  The events of one session. Each comes with the \<open>commentaryStatus\<close> captured by the
  closure that handles it and with what the browser shows at that moment. The arrival of
  a message and the settling of a decoder are events of their own. A rejected
  \<open>onmessage\<close> leaves the state as it was at the throw.
\<close>

datatype 'a event =
    Open
  | Message message
  | ErrorEvent
  | CloseEvent
  | Trigger bool "error + string" bool
  | TimerFire nat
  | SetPending 'a
  | Decoded nat

fun step :: "(string \<Rightarrow> error + real) \<Rightarrow> string \<times> env \<times> 'a event \<Rightarrow> 'a hook \<Rightarrow> 'a hook" where
  "step dec (cs, e, Open) s = onopen s"
| "step dec (cs, e, Message msg) s = onmessage cs e msg s"
| "step dec (cs, e, ErrorEvent) s = onerror cs e s"
| "step dec (cs, e, CloseEvent) s = onclose cs e s"
| "step dec (cs, e, Trigger apiKey prompt sendOk) s =
     snd (triggerDynamicCommentary apiKey prompt sendOk cs e s)"
| "step dec (cs, e, TimerFire h) s = fireTimeout h e s"
| "step dec (cs, e, SetPending fn) s = setPendingAction fn s"
| "step dec (cs, e, Decoded i) s = fst (decoded dec i e s)"

fun run :: "(string \<Rightarrow> error + real) \<Rightarrow> (string \<times> env \<times> 'a event) list \<Rightarrow> 'a hook \<Rightarrow> 'a hook" where
  "run dec [] s = s"
| "run dec (x # xs) s = run dec xs (step dec x s)"

subsection \<open>Invariants of the timeout table\<close>

text \<open>
  Handles are positive, below the next handle to hand out, and pairwise different.
\<close>

definition handles_ok :: "'a hook \<Rightarrow> bool" where
  "handles_ok s \<longleftrightarrow>
     0 < nextHandle s \<and> list_all (\<lambda>kt. 0 < fst kt \<and> fst kt < nextHandle s) (timers s)
     \<and> distinct (map fst (timers s))"

fun isPoll :: "timer \<Rightarrow> bool" where
  "isPoll (PollTimer cs ms) = True"
| "isPoll SafetyNetTimer = False"

definition pollHandles :: "'a hook \<Rightarrow> nat list" where
  "pollHandles s = map fst (filter (\<lambda>kt. isPoll (snd kt)) (timers s))"

definition safetyHandles :: "'a hook \<Rightarrow> nat list" where
  "safetyHandles s = map fst (filter (\<lambda>kt. \<not> isPoll (snd kt)) (timers s))"

text \<open>
  Every pending poll is the one whose handle \<open>audioCompletionCheckTimeoutRef\<close> holds.
\<close>

definition poll_inv :: "'a hook \<Rightarrow> bool" where
  "poll_inv s \<longleftrightarrow>
     handles_ok s \<and> list_all (\<lambda>h. audioCompletionCheckTimeout s = Some h) (pollHandles s)"

text \<open>
  The pending polls and the pending safety-net timeouts are exactly those whose handles
  the two refs hold, and \<open>safetyNetNextBallTimeoutRef\<close> holds one exactly when an
  action is pending.
\<close>

definition slot_inv :: "'a hook \<Rightarrow> bool" where
  "slot_inv s \<longleftrightarrow>
     handles_ok s
     \<and> pollHandles s = (case audioCompletionCheckTimeout s of None \<Rightarrow> [] | Some h \<Rightarrow> [h])
     \<and> safetyHandles s = (case safetyNetNextBallTimeout s of None \<Rightarrow> [] | Some h \<Rightarrow> [h])
     \<and> (pendingNextBallAction s = None \<longleftrightarrow> safetyNetNextBallTimeout s = None)"

text \<open>The actions that were called, in the order of the calls.\<close>

fun ranAction :: "'a effect \<Rightarrow> 'a option" where
  "ranAction (RunAction a) = Some a"
| "ranAction (Start t d) = None"
| "ranAction (Connect p) = None"
| "ranAction (SendRealtimeInput p) = None"
| "ranAction OnApiKeyError = None"

definition runs :: "'a hook \<Rightarrow> 'a list" where
  "runs s = List.map_filter ranAction (log s)"

fun isSetPending :: "string \<times> env \<times> 'a event \<Rightarrow> bool" where
  "isSetPending (cs, e, SetPending fn) = True"
| "isSetPending (cs, e, Open) = False"
| "isSetPending (cs, e, Message msg) = False"
| "isSetPending (cs, e, ErrorEvent) = False"
| "isSetPending (cs, e, CloseEvent) = False"
| "isSetPending (cs, e, Trigger apiKey prompt sendOk) = False"
| "isSetPending (cs, e, TimerFire h) = False"
| "isSetPending (cs, e, Decoded i) = False"

text \<open>
  The run has an event that forces the slot empty whatever the clock reads: a transport
  error, the end of the session, or the firing of the timeout with handle \<open>h\<close>.
\<close>

fun forcesRun :: "nat \<Rightarrow> string \<times> env \<times> 'a event \<Rightarrow> bool" where
  "forcesRun h (cs, e, TimerFire k) = (k = h)"
| "forcesRun h (cs, e, ErrorEvent) = True"
| "forcesRun h (cs, e, CloseEvent) = True"
| "forcesRun h (cs, e, Open) = False"
| "forcesRun h (cs, e, Message msg) = False"
| "forcesRun h (cs, e, Trigger apiKey prompt sendOk) = False"
| "forcesRun h (cs, e, SetPending fn) = False"
| "forcesRun h (cs, e, Decoded i) = False"

subsection \<open>The state without the status\<close>

text \<open>
  What is left of the state when the status is taken out: the current
  \<open>commentaryStatus\<close> and the value of it that the closures of the pending polls and
  of the suspended handlers captured.
\<close>

fun stripCaptured :: "timer \<Rightarrow> timer" where
  "stripCaptured (PollTimer cs ms) = PollTimer [] ms"
| "stripCaptured SafetyNetTimer = SafetyNetTimer"

definition sched :: "'a hook \<Rightarrow> 'a hook" where
  "sched s = s\<lparr>commentaryStatus := [],
                 timers := map (\<lambda>kt. (fst kt, stripCaptured (snd kt))) (timers s),
                 awaiting := map (\<lambda>k. k\<lparr>capturedStatus := []\<rparr>) (awaiting s)\<rparr>"

text \<open>The event without the status its closure captured.\<close>

definition unstatus :: "string \<times> env \<times> 'a event \<Rightarrow> env \<times> 'a event" where
  "unstatus x = snd x"

subsection \<open>Chunks, clock readings and the scenario of the two chunks\<close>

text \<open>What the browser shows when the audio context is running and its clock reads \<open>t\<close>.\<close>

definition running_at :: "real \<Rightarrow> env" where
  "running_at t = \<lparr>audioCtx = Some Running, currentTime = t\<rparr>"

text \<open>
  Polls of the detector at the clock readings \<open>ts\<close>, one after the other, with the audio
  context running.
\<close>

fun polls :: "string \<Rightarrow> real list \<Rightarrow> 'a hook \<Rightarrow> 'a hook" where
  "polls cs [] s = s"
| "polls cs (t # ts) s = polls cs ts (performCheckAndAct cs (running_at t) s)"

text \<open>A message whose model turn has one audio part with the given payload.\<close>

definition audioChunk :: "string \<Rightarrow> bool \<Rightarrow> message" where
  "audioChunk payload tc =
     \<lparr>modelTurn = Some [\<lparr>inlineData = Some \<lparr>mimeType = Some ''audio/pcm'', data = Some payload\<rparr>\<rparr>],
      turnComplete = tc\<rparr>"

text \<open>A decoder given by a table of durations; a payload that is not in the table fails to decode.\<close>

definition decodeTable :: "(string \<times> real) list \<Rightarrow> string \<Rightarrow> error + real" where
  "decodeTable tab payload = (case map_of tab payload of None \<Rightarrow> Inl DecodeError | Some d \<Rightarrow> Inr d)"

text \<open>
  Two chunks of 1.0 s and 0.8 s arrive when the clock reads 10.0 s and the cursor is at
  10.0 s, each decoded before anything else happens; the second one completes the turn.
\<close>

definition twoChunks :: "'a hook" where
  "twoChunks =
     run (decodeTable [(''c1'', 1), (''c2'', 0.8)])
       [('''', running_at 10, Message (audioChunk ''c1'' False)),
        ('''', running_at 10, Decoded 0),
        ('''', running_at 10, Message (audioChunk ''c2'' True)),
        ('''', running_at 10, Decoded 0)]
       (mounted\<lparr>nextStartTime := 10\<rparr>)"

subsection \<open>Further states and reference definitions\<close>

text \<open>A hook that is playing, with the cursor at \<open>c\<close>.\<close>

definition playingUntil :: "real \<Rightarrow> 'a hook" where
  "playingUntil c = mounted\<lparr>isAudioPlaying := True, nextStartTime := c\<rparr>"

text \<open>
  The delay of the re-check in the words of the spec: the larger of the minimum poll
  interval and the remaining time until the threshold \<open>nextStartTime - margin\<close> plus the
  margin, in milliseconds.
\<close>

definition claimedRecheckDelay :: "'a hook \<Rightarrow> env \<Rightarrow> real" where
  "claimedRecheckDelay s e =
     max CHECK_INTERVAL_MS (((nextStartTime s - MARGIN_SECONDS) - currentTime e + MARGIN_SECONDS) * 1000)"







text \<open>
  Three chunks arrive with the cursor at 10.0 s, each decoded before the next arrives;
  the second one fails to decode.
\<close>

definition threeChunks :: "'a hook" where
  "threeChunks =
     run (decodeTable [(''c1'', 1), (''c3'', 0.5)])
       [('''', running_at 10, Message (audioChunk ''c1'' False)),
        ('''', running_at 10, Decoded 0),
        ('''', running_at 10.2, Message (audioChunk ''c2'' False)),
        ('''', running_at 10.2, Decoded 0),
        ('''', running_at 10.4, Message (audioChunk ''c3'' False)),
        ('''', running_at 10.4, Decoded 0)]
       (mounted\<lparr>nextStartTime := 10\<rparr>)"

text \<open>
  What an event other than the setting of a pending action may do to the slot: nothing,
  or empty it and call the action that was pending.
\<close>

definition slotStep :: "'a hook \<Rightarrow> 'a hook \<Rightarrow> bool" where
  "slotStep s s' \<longleftrightarrow>
     slot_inv s'
     \<and> ((pendingNextBallAction s' = pendingNextBallAction s
          \<and> safetyNetNextBallTimeout s' = safetyNetNextBallTimeout s \<and> runs s' = runs s)
        \<or> (pendingNextBallAction s' = None
          \<and> runs s' = runs s @ (case pendingNextBallAction s of None \<Rightarrow> [] | Some a \<Rightarrow> [a])))"

text \<open>The event with the empty string for the status its closure captured.\<close>

definition blind :: "string \<times> env \<times> 'a event \<Rightarrow> string \<times> env \<times> 'a event" where
  "blind x = ([], unstatus x)"

subsection \<open>The copy of the hook in components/GameCanvas.tsx\<close>

text \<open>
  The second text of \<open>useLiveCommentary\<close>, translated on its own, line by line, with
  the prefix \<open>gc\<close> on its names. It shares with the first the types, the strings of the
  status, the browser's timeouts and the slot of the game engine.
\<close>

definition gc_CHECK_INTERVAL_MS :: real where
  "gc_CHECK_INTERVAL_MS = 50"

definition gc_MARGIN_SECONDS :: real where
  "gc_MARGIN_SECONDS = 0.15"

definition gc_readyOrDisconnected :: "'a hook \<Rightarrow> string" where
  "gc_readyOrDisconnected s = (if isLiveSessionReady s then stLiveReady else stLiveDisconnected)"

definition gc_runPendingNextBallAction :: "'a hook \<Rightarrow> 'a hook" where
  "gc_runPendingNextBallAction s =
     (case pendingNextBallAction s of
        None \<Rightarrow> s
      | Some actionToRun \<Rightarrow>
          let s1 = s\<lparr>pendingNextBallAction := None\<rparr>;
              s2 = (case safetyNetNextBallTimeout s1 of
                      None \<Rightarrow> s1
                    | Some h \<Rightarrow>
                        if h \<noteq> 0 then (clearTimeout h s1)\<lparr>safetyNetNextBallTimeout := None\<rparr>
                        else s1)
          in emit (RunAction actionToRun) s2)"

definition gc_performCheckAndAct :: "string \<Rightarrow> env \<Rightarrow> 'a hook \<Rightarrow> 'a hook" where
  "gc_performCheckAndAct cs e s0 =
     (let s = s0\<lparr>audioCompletionCheckTimeout := None\<rparr> in
      if \<not> isAudioPlaying s \<or> audioCtx e \<noteq> Some Running then
        gc_runPendingNextBallAction
          (if prefix stSpeakingPrefix cs then setCommentaryStatus (gc_readyOrDisconnected s) s else s)
      else
        let now = currentTime e; expectedEndTime = nextStartTime s in
        if now \<ge> expectedEndTime - gc_MARGIN_SECONDS then
          gc_runPendingNextBallAction
            (setCommentaryStatus (gc_readyOrDisconnected s) (s\<lparr>isAudioPlaying := False\<rparr>))
        else
          let timeToWait = max gc_CHECK_INTERVAL_MS ((expectedEndTime - now + gc_MARGIN_SECONDS) * 1000);
              (h, s1) = setTimeout (PollTimer cs timeToWait) s
          in s1\<lparr>audioCompletionCheckTimeout := Some h\<rparr>)"

definition gc_scheduleAudioCompletionCheck :: "string \<Rightarrow> string \<Rightarrow> env \<Rightarrow> 'a hook \<Rightarrow> 'a hook" where
  "gc_scheduleAudioCompletionCheck cs reason e s =
     gc_performCheckAndAct cs e
       (case audioCompletionCheckTimeout s of
          None \<Rightarrow> s
        | Some h \<Rightarrow>
            if h \<noteq> 0 then (clearTimeout h s)\<lparr>audioCompletionCheckTimeout := None\<rparr> else s)"

definition gc_isAudioPart :: "part \<Rightarrow> bool" where
  "gc_isAudioPart p =
     (case inlineData p of
        None \<Rightarrow> False
      | Some d \<Rightarrow> (case mimeType d of None \<Rightarrow> False | Some m \<Rightarrow> prefix ''audio/'' m))"

definition gc_audioPayload :: "part list \<Rightarrow> string option" where
  "gc_audioPayload parts =
     (case find gc_isAudioPart parts of
        None \<Rightarrow> None
      | Some p \<Rightarrow>
          (case inlineData p of
             None \<Rightarrow> None
           | Some d \<Rightarrow> (case data d of None \<Rightarrow> None | Some x \<Rightarrow> if x = [] then None else Some x)))"

definition gc_onmessage_end :: "string \<Rightarrow> env \<Rightarrow> bool \<Rightarrow> 'a hook \<Rightarrow> 'a hook" where
  "gc_onmessage_end cs e tc s =
     (if tc then gc_scheduleAudioCompletionCheck cs ''model_turn_content_complete'' e s else s)"

definition gc_onmessage :: "string \<Rightarrow> env \<Rightarrow> message \<Rightarrow> 'a hook \<Rightarrow> 'a hook" where
  "gc_onmessage cs e msg s =
     (case modelTurn msg of
        Some parts \<Rightarrow>
          (case gc_audioPayload parts of
             None \<Rightarrow> gc_onmessage_end cs e (turnComplete msg) s
           | Some d \<Rightarrow>
               if audioCtx e = Some Running then
                 let s1 = (if \<not> isAudioPlaying s
                           then s\<lparr>nextStartTime := max (nextStartTime s) (currentTime e)\<rparr> else s);
                     s2 = s1\<lparr>isAudioPlaying := True\<rparr>
                 in s2\<lparr>awaiting := awaiting s2 @
                      [\<lparr>chunkData = d, completesTurn = turnComplete msg, capturedStatus = cs\<rparr>]\<rparr>
               else gc_onmessage_end cs e (turnComplete msg) s)
      | None \<Rightarrow>
          (if turnComplete msg
           then gc_scheduleAudioCompletionCheck cs ''server_ack_turn_complete'' e s
           else s))"

definition gc_onmessage_resume ::
  "(string \<Rightarrow> error + real) \<Rightarrow> env \<Rightarrow> awaited \<Rightarrow> 'a hook \<Rightarrow> 'a hook \<times> error option" where
  "gc_onmessage_resume dec e k s =
     (case dec (chunkData k) of
        Inl err \<Rightarrow> (s, Some err)
      | Inr duration \<Rightarrow>
          let s3 = emit (Start (nextStartTime s) duration) s;
              s4 = s3\<lparr>nextStartTime := nextStartTime s3 + duration\<rparr>;
              s5 = setCommentaryStatus stSpeaking s4
          in (gc_onmessage_end (capturedStatus k) e (completesTurn k) s5, None))"

definition gc_decoded ::
  "(string \<Rightarrow> error + real) \<Rightarrow> nat \<Rightarrow> env \<Rightarrow> 'a hook \<Rightarrow> 'a hook \<times> error option" where
  "gc_decoded dec i e s =
     (if i < length (awaiting s)
      then gc_onmessage_resume dec e (awaiting s ! i)
             (s\<lparr>awaiting := take i (awaiting s) @ drop (Suc i) (awaiting s)\<rparr>)
      else (s, None))"

definition gc_onopen :: "'a hook \<Rightarrow> 'a hook" where
  "gc_onopen s = setCommentaryStatus stLiveReady (s\<lparr>isLiveSessionReady := True\<rparr>)"

definition gc_onerror :: "string \<Rightarrow> env \<Rightarrow> 'a hook \<Rightarrow> 'a hook" where
  "gc_onerror cs e s =
     gc_scheduleAudioCompletionCheck cs ''live_onerror'' e
       ((setCommentaryStatus stLiveErr (s\<lparr>isLiveSessionReady := False\<rparr>))\<lparr>isAudioPlaying := False\<rparr>)"

definition gc_onclose :: "string \<Rightarrow> env \<Rightarrow> 'a hook \<Rightarrow> 'a hook" where
  "gc_onclose cs e s =
     gc_scheduleAudioCompletionCheck cs ''live_onclose'' e
       ((setCommentaryStatus stLiveClosed
           (s\<lparr>isLiveSessionReady := False, liveSession := False\<rparr>))\<lparr>isAudioPlaying := False\<rparr>)"

definition gc_triggerDynamicCommentary ::
  "bool \<Rightarrow> error + string \<Rightarrow> bool \<Rightarrow> string \<Rightarrow> env \<Rightarrow> 'a hook \<Rightarrow> bool \<times> 'a hook" where
  "gc_triggerDynamicCommentary apiKey prompt sendOk cs e s =
     (if \<not> apiKey \<or> \<not> liveSession s \<or> \<not> isLiveSessionReady s then (False, s)
      else
        let caught = (\<lambda>s'. (False,
              gc_scheduleAudioCompletionCheck cs ''commentary_trigger_error'' e
                ((setCommentaryStatus stCommSendErr s')\<lparr>isAudioPlaying := False\<rparr>)));
            s1 = setCommentaryStatus stCreatingPrompt s
        in (case prompt of
              Inl err \<Rightarrow> caught s1
            | Inr promptText \<Rightarrow>
                if promptText \<noteq> [] then
                  let s2 = setCommentaryStatus stSending s1 in
                  if sendOk then (True, emit (SendRealtimeInput promptText) s2) else caught s2
                else (False, s1)))"

definition gc_initialSystemPrompt :: string where
  \<open>gc_initialSystemPrompt =
     ''You are an expert live cricket commentator for an arcade game, but with a '' @
     ''very specific persona.'' @
     [CHR 0x0A] @
     [CHR 0x0A] @
     ''**YOUR PERSONA - FOLLOW THIS STRICTLY:**'' @
     [CHR 0x0A] @
     [CHR 0x0A] @
     ''*   **Personality**: You are a very old, grumpy, and poetic cricket '' @
     ''commentator from the heart of Yorkshire. Your voice is gravelly with age and '' @
     ''tinged with a perpetual sense of mild disappointment. You've seen it all, and '' @
     ''frankly, you're not easily impressed. You grumble about modern players and '' @
     ''techniques, comparing them unfavorably to the titans of the past.'' @
     [CHR 0x0A] @
     ''*   **Poetic Grumbling**: Despite your grumpiness, you have a poet's soul. '' @
     ''You might describe a perfect shot with a grudging, beautiful metaphor before '' @
     ''complaining about the batsman's follow-through. Your commentary is a mix of '' @
     ''cynical sighs and unexpectedly elegant descriptions.'' @
     [CHR 0x0A] @
     ''*   **Yorkshire Dialect**: Your speech is thick with authentic Yorkshire '' @
     ''dialect. Use phrases like "Now then," "What's he playing at?", "It were right '' @
     ''down the wicket," "He's made a right pig's ear o' that," and "By 'eck, that '' @
     ''were a bit of a do."'' @
     [CHR 0x0A] @
     ''*   **Identity**: You are the soul of Yorkshire cricket, watching from the '' @
     ''commentary box with a flask of tea and a critical eye. You are 'The Voice of '' @
     ''the Game'. Never mention being an AI or Gemini.'' @
     [CHR 0x0A] @
     [CHR 0x0A] @
     ''**YOUR TASK - HOW TO COMMENTATE:**'' @
     [CHR 0x0A] @
     [CHR 0x0A] @
     ''1.  **REACT TO THE INPUT:** I will provide you with a factual "Match '' @
     ''Situation" (e.g., "Event: SIX runs scored," "Overall Situation: They need 15 '' @
     ''runs from 8 balls.").'' @
     [CHR 0x0A] @
     ''2.  **TRANSFORM, DON'T REPORT:** Do NOT simply read the facts. Filter them '' @
     ''through your grumpy, poetic persona. A six isn't just a six; it's "Aye, he's '' @
     ''given it a whack... a bit agricultural, mind, but it's over the rope." A '' @
     ''wicket isn't just a wicket; it's "Oh, dear me. Straight as an arrow. You '' @
     ''don't play at those. Plumb. He's off back to the pavilion for an early tea."'' @
     [CHR 0x0A] @
     ''3.  **BE CONCISE & PUNCHY:** Keep it short. A grumbled phrase or a poetic '' @
     ''sigh is all that's needed.'' @
     [CHR 0x0A] @
     ''4.  **USE THE CONTEXT:** Your grumpiness should increase or decrease with the '' @
     ''game's tension. A last-ball boundary to win might elicit a grudging "Well, '' @
     ''I'll be... he's gone and done it. Suppose that'll do."'' @
     [CHR 0x0A] @
     ''5.  **OUTPUT AUDIO ONLY:** Your response must be purely audio. No text.'' @
     [CHR 0x0A] @
     [CHR 0x0A] @
     ''Your goal is to make the player feel like they're being judged and '' @
     ''occasionally praised by a cricket purist from a bygone era.''\<close>

definition gc_initLiveSession ::
  "bool \<Rightarrow> env \<Rightarrow> connect_result \<Rightarrow> 'a hook \<Rightarrow> 'a hook \<times> error option" where
  "gc_initLiveSession audioOk e conn s0 =
     (let s = (if liveSession s0 then s0\<lparr>liveSession := False, isLiveSessionReady := False\<rparr> else s0) in
      if \<not> audioOk then (setCommentaryStatus stAudioErr s, Some AudioInitError)
      else if audioCtx e \<noteq> Some Running
      then (setCommentaryStatus stAudioSystemErr s, Some AudioContextNotRunning)
      else
        let s1 = s\<lparr>nextStartTime := currentTime e, isAudioPlaying := False\<rparr>;
            s2 = emit (Connect gc_initialSystemPrompt) (setCommentaryStatus stConnecting s1)
        in (case conn of
              Connected \<Rightarrow> (s2\<lparr>liveSession := True\<rparr>, None)
            | ConnectFailed errorMessage \<Rightarrow>
                let s3 = (if sublist ''service is currently unavailable'' errorMessage
                             \<or> sublist ''entity was not found'' errorMessage
                          then emit OnApiKeyError (setCommentaryStatus stApiKeyInvalid s2)
                          else setCommentaryStatus stLiveConnectErr s2)
                in (s3\<lparr>isAudioPlaying := False\<rparr>, Some (ConnectError errorMessage))))"

definition gc_fireTimeout :: "nat \<Rightarrow> env \<Rightarrow> 'a hook \<Rightarrow> 'a hook" where
  "gc_fireTimeout h e s =
     (case map_of (timers s) h of
        None \<Rightarrow> s
      | Some (PollTimer cs ms) \<Rightarrow> gc_performCheckAndAct cs e (clearTimeout h s)
      | Some SafetyNetTimer \<Rightarrow> consumeAndRun (clearTimeout h s))"

fun gc_step :: "(string \<Rightarrow> error + real) \<Rightarrow> string \<times> env \<times> 'a event \<Rightarrow> 'a hook \<Rightarrow> 'a hook" where
  "gc_step dec (cs, e, Open) s = gc_onopen s"
| "gc_step dec (cs, e, Message msg) s = gc_onmessage cs e msg s"
| "gc_step dec (cs, e, ErrorEvent) s = gc_onerror cs e s"
| "gc_step dec (cs, e, CloseEvent) s = gc_onclose cs e s"
| "gc_step dec (cs, e, Trigger apiKey prompt sendOk) s =
     snd (gc_triggerDynamicCommentary apiKey prompt sendOk cs e s)"
| "gc_step dec (cs, e, TimerFire h) s = gc_fireTimeout h e s"
| "gc_step dec (cs, e, SetPending fn) s = setPendingAction fn s"
| "gc_step dec (cs, e, Decoded i) s = fst (gc_decoded dec i e s)"

fun gc_run :: "(string \<Rightarrow> error + real) \<Rightarrow> (string \<times> env \<times> 'a event) list \<Rightarrow> 'a hook \<Rightarrow> 'a hook" where
  "gc_run dec [] s = s"
| "gc_run dec (x # xs) s = gc_run dec xs (gc_step dec x s)"

text \<open>The effect without the text of the system instruction.\<close>

fun forgetPrompt :: "'a effect \<Rightarrow> 'a effect" where
  "forgetPrompt (Connect p) = Connect []"
| "forgetPrompt (Start t d) = Start t d"
| "forgetPrompt (RunAction a) = RunAction a"
| "forgetPrompt (SendRealtimeInput p) = SendRealtimeInput p"
| "forgetPrompt OnApiKeyError = OnApiKeyError"


section \<open>Properties\<close>

subsection \<open>The branches of a completion check\<close>

lemma runPending_fields [simp]:
  "isAudioPlaying (runPendingNextBallAction s) = isAudioPlaying s"
  "nextStartTime (runPendingNextBallAction s) = nextStartTime s"
  "commentaryStatus (runPendingNextBallAction s) = commentaryStatus s"
  "isLiveSessionReady (runPendingNextBallAction s) = isLiveSessionReady s"
  "liveSession (runPendingNextBallAction s) = liveSession s"
  "audioCompletionCheckTimeout (runPendingNextBallAction s) = audioCompletionCheckTimeout s"
  "nextHandle (runPendingNextBallAction s) = nextHandle s"
  "awaiting (runPendingNextBallAction s) = awaiting s"
  "pendingNextBallAction (runPendingNextBallAction s) = None"
  "log (runPendingNextBallAction s) =
     log s @ (case pendingNextBallAction s of None \<Rightarrow> [] | Some a \<Rightarrow> [RunAction a])"
  by (simp_all add: runPendingNextBallAction_def emit_def clearTimeout_def Let_def
        split: option.splits)

lemma check_idle:
  "\<not> isAudioPlaying s \<or> audioCtx e \<noteq> Some Running \<Longrightarrow>
   performCheckAndAct cs e s =
     runPendingNextBallAction
       (if prefix stSpeakingPrefix cs
        then s\<lparr>audioCompletionCheckTimeout := None, commentaryStatus := readyOrDisconnected s\<rparr>
        else s\<lparr>audioCompletionCheckTimeout := None\<rparr>)"
  by (auto simp: performCheckAndAct_def setCommentaryStatus_def readyOrDisconnected_def Let_def)

lemma check_done:
  "isAudioPlaying s \<Longrightarrow> audioCtx e = Some Running \<Longrightarrow>
   nextStartTime s - MARGIN_SECONDS \<le> currentTime e \<Longrightarrow>
   performCheckAndAct cs e s =
     runPendingNextBallAction
       (s\<lparr>audioCompletionCheckTimeout := None, isAudioPlaying := False,
          commentaryStatus := readyOrDisconnected s\<rparr>)"
  by (simp add: performCheckAndAct_def setCommentaryStatus_def readyOrDisconnected_def Let_def)

lemma check_wait:
  "isAudioPlaying s \<Longrightarrow> audioCtx e = Some Running \<Longrightarrow>
   currentTime e < nextStartTime s - MARGIN_SECONDS \<Longrightarrow>
   performCheckAndAct cs e s =
     s\<lparr>audioCompletionCheckTimeout := Some (nextHandle s),
       timers := timers s @ [(nextHandle s,
          PollTimer cs ((nextStartTime s - currentTime e + MARGIN_SECONDS) * 1000))],
       nextHandle := Suc (nextHandle s)\<rparr>"
  by (simp add: performCheckAndAct_def setTimeout_def Let_def MARGIN_SECONDS_def
        CHECK_INTERVAL_MS_def max_def)

subsection \<open>When completion is declared\<close>

lemma audioPayload_audioChunk [simp]:
  "audioPayload [\<lparr>inlineData = Some \<lparr>mimeType = Some ''audio/pcm'', data = Some p\<rparr>\<rparr>] =
     (if p = [] then None else Some p)"
  by (simp add: audioPayload_def isAudioPart_def)

lemma twoChunks_eq:
  "(twoChunks :: 'a hook) =
     \<lparr>commentaryStatus = stSpeaking, liveSession = False, isLiveSessionReady = False,
      nextStartTime = 11.8, isAudioPlaying = True, pendingNextBallAction = None,
      audioCompletionCheckTimeout = Some 1, safetyNetNextBallTimeout = None,
      timers = [(1, PollTimer '''' 1950)], nextHandle = 2,
      log = [Start 10 1, Start 11 0.8], awaiting = []\<rparr>"
  by (simp add: twoChunks_def mounted_def onmessage_def decoded_def onmessage_resume_def
        onmessage_end_def audioChunk_def
        decodeTable_def running_at_def emit_def setCommentaryStatus_def
        scheduleAudioCompletionCheck_def performCheckAndAct_def setTimeout_def
        MARGIN_SECONDS_def CHECK_INTERVAL_MS_def Let_def)

lemma polls_idle: "\<not> isAudioPlaying s \<Longrightarrow> \<not> isAudioPlaying (polls cs ts s)"
proof (induction ts arbitrary: s)
  case Nil
  then show ?case by simp
next
  case (Cons t ts)
  have "\<not> isAudioPlaying (performCheckAndAct cs (running_at t) s)"
    using Cons.prems by (simp add: check_idle)
  then show ?case using Cons.IH by simp
qed

lemma polls_playing:
  "isAudioPlaying (polls cs ts s) \<longleftrightarrow>
     isAudioPlaying s \<and> (\<forall>t\<in>set ts. t < nextStartTime s - MARGIN_SECONDS)"
proof (induction ts arbitrary: s)
  case Nil
  then show ?case by simp
next
  case (Cons t ts)
  show ?case
  proof (cases "isAudioPlaying s")
    case False
    then show ?thesis using polls_idle [of s cs "t # ts"] by simp
  next
    case True
    show ?thesis
    proof (cases "t < nextStartTime s - MARGIN_SECONDS")
      case w: True
      have "performCheckAndAct cs (running_at t) s =
         s\<lparr>audioCompletionCheckTimeout := Some (nextHandle s),
           timers := timers s @ [(nextHandle s,
              PollTimer cs ((nextStartTime s - currentTime (running_at t) + MARGIN_SECONDS) * 1000))],
           nextHandle := Suc (nextHandle s)\<rparr>"
        using True w by (intro check_wait) (simp_all add: running_at_def)
      then show ?thesis using True w Cons.IH by simp
    next
      case d: False
      have "\<not> isAudioPlaying (performCheckAndAct cs (running_at t) s)"
        using True d by (subst check_done) (simp_all add: running_at_def)
      then show ?thesis using d polls_idle [of _ cs ts] by simp
    qed
  qed
qed

lemma wait_then_fire:
  assumes "handles_ok s" and "isAudioPlaying s" and "audioCtx e = Some Running"
    and "currentTime e < nextStartTime s - MARGIN_SECONDS" and "audioCtx e' = Some Running"
  shows "isAudioPlaying (fireTimeout (nextHandle s) e' (performCheckAndAct cs e s))
           \<longleftrightarrow> currentTime e' < nextStartTime s - MARGIN_SECONDS"
proof -
  let ?d = "(nextStartTime s - currentTime e + MARGIN_SECONDS) * 1000"
  let ?s1 = "s\<lparr>audioCompletionCheckTimeout := Some (nextHandle s),
       timers := timers s @ [(nextHandle s, PollTimer cs ?d)],
       nextHandle := Suc (nextHandle s)\<rparr>"
  have w: "performCheckAndAct cs e s = ?s1"
    using assms(2-4) by (rule check_wait)
  have "nextHandle s \<notin> fst ` set (timers s)"
    using assms(1) by (auto simp: handles_ok_def list_all_iff)
  then have "map_of (timers s) (nextHandle s) = None"
    by (simp add: map_of_eq_None_iff)
  then have f: "fireTimeout (nextHandle s) e' ?s1
      = performCheckAndAct cs e' (clearTimeout (nextHandle s) ?s1)"
    by (simp add: fireTimeout_def map_add_def)
  have p: "isAudioPlaying (clearTimeout (nextHandle s) ?s1)"
    and n: "nextStartTime (clearTimeout (nextHandle s) ?s1) = nextStartTime s"
    using assms(2) by (simp_all add: clearTimeout_def)
  show ?thesis
  proof (cases "currentTime e' < nextStartTime s - MARGIN_SECONDS")
    case True
    then show ?thesis
      unfolding w f using p n assms(5) by (subst check_wait) simp_all
  next
    case False
    then show ?thesis
      unfolding w f using p n assms(5) by (subst check_done) simp_all
  qed
qed

text \<open>
  Claim C3. With the playing flag set and the audio context running, a completion check
  whose clock reading is below \<open>nextStartTime - 0.15\<close> declares nothing: the flag stays
  set and the status, the pending action and the log are untouched. A check at or past
  that threshold declares completion: it clears the flag, sets the status and runs the
  pending action. The timeout that a check below the threshold leaves behind runs the
  next check when it fires, and that one declares completion exactly when its own clock
  reading has reached the threshold. So over any series of polls the flag is set exactly
  as long as every poll was below the threshold. For chunks of 1.0 s and 0.8 s arriving at 10.0 s with the
  cursor at 10.0 s, the cursor ends at 11.8 s and a poll declares completion exactly when
  its clock reading is at least 11.65 s.
\<close>

theorem completion_check_threshold:
  assumes "isAudioPlaying s" and "audioCtx e = Some Running"
  shows "(currentTime e < nextStartTime s - MARGIN_SECONDS \<longrightarrow>
            isAudioPlaying (performCheckAndAct cs e s)
            \<and> nextStartTime (performCheckAndAct cs e s) = nextStartTime s
            \<and> commentaryStatus (performCheckAndAct cs e s) = commentaryStatus s
            \<and> pendingNextBallAction (performCheckAndAct cs e s) = pendingNextBallAction s
            \<and> log (performCheckAndAct cs e s) = log s)
       \<and> (nextStartTime s - MARGIN_SECONDS \<le> currentTime e \<longrightarrow>
            \<not> isAudioPlaying (performCheckAndAct cs e s)
            \<and> nextStartTime (performCheckAndAct cs e s) = nextStartTime s
            \<and> commentaryStatus (performCheckAndAct cs e s) = readyOrDisconnected s
            \<and> audioCompletionCheckTimeout (performCheckAndAct cs e s) = None
            \<and> pendingNextBallAction (performCheckAndAct cs e s) = None
            \<and> log (performCheckAndAct cs e s) =
                log s @ (case pendingNextBallAction s of None \<Rightarrow> [] | Some a \<Rightarrow> [RunAction a]))
       \<and> (handles_ok s \<and> currentTime e < nextStartTime s - MARGIN_SECONDS \<longrightarrow>
            (isAudioPlaying (fireTimeout (nextHandle s) (running_at t) (performCheckAndAct cs e s))
               \<longleftrightarrow> t < nextStartTime s - MARGIN_SECONDS))
       \<and> (isAudioPlaying (polls cs ts s) \<longleftrightarrow> (\<forall>t\<in>set ts. t < nextStartTime s - MARGIN_SECONDS))
       \<and> MARGIN_SECONDS = 0.15
       \<and> nextStartTime (twoChunks :: 'a hook) = 11.8
       \<and> log (twoChunks :: 'a hook) = [Start 10 1, Start 11 0.8]
       \<and> isAudioPlaying (twoChunks :: 'a hook)
       \<and> (isAudioPlaying (fireTimeout 1 (running_at t) (twoChunks :: 'a hook)) \<longleftrightarrow> t < 11.65)
       \<and> (isAudioPlaying (polls cs ts (twoChunks :: 'a hook)) \<longleftrightarrow> (\<forall>t\<in>set ts. t < 11.65))"
proof -
  have a: "currentTime e < nextStartTime s - MARGIN_SECONDS \<longrightarrow>
            isAudioPlaying (performCheckAndAct cs e s)
            \<and> nextStartTime (performCheckAndAct cs e s) = nextStartTime s
            \<and> commentaryStatus (performCheckAndAct cs e s) = commentaryStatus s
            \<and> pendingNextBallAction (performCheckAndAct cs e s) = pendingNextBallAction s
            \<and> log (performCheckAndAct cs e s) = log s"
    using assms by (simp add: check_wait)
  have b: "nextStartTime s - MARGIN_SECONDS \<le> currentTime e \<longrightarrow>
            \<not> isAudioPlaying (performCheckAndAct cs e s)
            \<and> nextStartTime (performCheckAndAct cs e s) = nextStartTime s
            \<and> commentaryStatus (performCheckAndAct cs e s) = readyOrDisconnected s
            \<and> audioCompletionCheckTimeout (performCheckAndAct cs e s) = None
            \<and> pendingNextBallAction (performCheckAndAct cs e s) = None
            \<and> log (performCheckAndAct cs e s) =
                log s @ (case pendingNextBallAction s of None \<Rightarrow> [] | Some a \<Rightarrow> [RunAction a])"
    using assms by (simp add: check_done)
  have c: "isAudioPlaying (polls cs ts s) \<longleftrightarrow> (\<forall>t\<in>set ts. t < nextStartTime s - MARGIN_SECONDS)"
    using assms(1) by (simp add: polls_playing)
  have g: "handles_ok s \<and> currentTime e < nextStartTime s - MARGIN_SECONDS \<longrightarrow>
            (isAudioPlaying (fireTimeout (nextHandle s) (running_at t) (performCheckAndAct cs e s))
               \<longleftrightarrow> t < nextStartTime s - MARGIN_SECONDS)"
    using wait_then_fire [of s e "running_at t" cs] assms by (simp add: running_at_def)
  have d: "isAudioPlaying (fireTimeout 1 (running_at t) (twoChunks :: 'a hook)) \<longleftrightarrow> t < 11.65"
  proof (cases "t < 11.65")
    case True
    then show ?thesis
      by (simp add: twoChunks_eq fireTimeout_def clearTimeout_def check_wait running_at_def
            MARGIN_SECONDS_def)
  next
    case False
    then show ?thesis
      by (simp add: twoChunks_eq fireTimeout_def clearTimeout_def check_done running_at_def
            MARGIN_SECONDS_def)
  qed
  have f: "isAudioPlaying (polls cs ts (twoChunks :: 'a hook)) \<longleftrightarrow> (\<forall>t\<in>set ts. t < 11.65)"
    by (simp add: polls_playing) (simp add: twoChunks_eq MARGIN_SECONDS_def)
  have rest: "MARGIN_SECONDS = 0.15 \<and> nextStartTime (twoChunks :: 'a hook) = 11.8
       \<and> log (twoChunks :: 'a hook) = [Start 10 1, Start 11 0.8]
       \<and> isAudioPlaying (twoChunks :: 'a hook)"
    by (simp add: twoChunks_eq MARGIN_SECONDS_def)
  show ?thesis using a b c d f g rest by blast
qed

theorem completion_check_threshold_witness:
  "isAudioPlaying (twoChunks :: unit hook) \<and> audioCtx (running_at 11.65) = Some Running
   \<and> \<not> isAudioPlaying (performCheckAndAct [] (running_at 11.65) (twoChunks :: unit hook))
   \<and> isAudioPlaying (performCheckAndAct [] (running_at 11.6) (twoChunks :: unit hook))"
proof -
  have p: "isAudioPlaying (twoChunks :: unit hook)"
    by (simp add: twoChunks_eq)
  have r: "audioCtx (running_at t) = Some Running" for t
    by (simp add: running_at_def)
  have late: "nextStartTime (twoChunks :: unit hook) - MARGIN_SECONDS \<le> currentTime (running_at 11.65)"
    by (simp add: twoChunks_eq running_at_def MARGIN_SECONDS_def)
  have early: "currentTime (running_at 11.6) < nextStartTime (twoChunks :: unit hook) - MARGIN_SECONDS"
    by (simp add: twoChunks_eq running_at_def MARGIN_SECONDS_def)
  have "\<not> isAudioPlaying (performCheckAndAct [] (running_at 11.65) (twoChunks :: unit hook))"
    using completion_check_threshold [OF p r [of "11.65"], where cs = "[]" and ts = "[]" and t = 0] late by blast
  moreover have "isAudioPlaying (performCheckAndAct [] (running_at 11.6) (twoChunks :: unit hook))"
    using completion_check_threshold [OF p r [of "11.6"], where cs = "[]" and ts = "[]" and t = 0] early by blast
  ultimately show ?thesis using p r by simp
qed

subsection \<open>The delay of the re-check\<close>

text \<open>
  Against claim C4 as stated: playing with the cursor at 11.8 s, a check at 10.0 s sets a
  timeout of 1950 ms, where the delay the claim describes is 1800 ms.
\<close>

theorem recheck_delay_counterexample:
  "timers (performCheckAndAct [] (running_at 10) (playingUntil 11.8 :: unit hook))
     = [(1, PollTimer [] 1950)]
   \<and> claimedRecheckDelay (playingUntil 11.8 :: unit hook) (running_at 10) = 1800"
  by (simp add: playingUntil_def mounted_def running_at_def claimedRecheckDelay_def
        performCheckAndAct_def setTimeout_def MARGIN_SECONDS_def CHECK_INTERVAL_MS_def Let_def)

text \<open>
  Claim C4, amended. A check that finds the threshold not yet reached leaves the state as
  it is but for exactly one new timeout, whose handle it stores. Its delay is the larger
  of 50 ms and the remaining time until \<open>nextStartTime\<close> (not until the threshold) plus
  the margin of 150 ms; in this branch that is always the second, and more than 300 ms,
  so the detector does not busy-poll.
\<close>

theorem recheck_delay:
  assumes "isAudioPlaying s" and "audioCtx e = Some Running"
    and "currentTime e < nextStartTime s - MARGIN_SECONDS"
  shows "performCheckAndAct cs e s =
           s\<lparr>audioCompletionCheckTimeout := Some (nextHandle s),
             timers := timers s @
               [(nextHandle s, PollTimer cs (max CHECK_INTERVAL_MS
                   ((nextStartTime s - currentTime e + MARGIN_SECONDS) * 1000)))],
             nextHandle := Suc (nextHandle s)\<rparr>
         \<and> max CHECK_INTERVAL_MS ((nextStartTime s - currentTime e + MARGIN_SECONDS) * 1000)
             = (nextStartTime s - currentTime e) * 1000 + 150
         \<and> 300 < max CHECK_INTERVAL_MS ((nextStartTime s - currentTime e + MARGIN_SECONDS) * 1000)
         \<and> CHECK_INTERVAL_MS = 50 \<and> MARGIN_SECONDS = 0.15"
proof -
  have big: "300 < (nextStartTime s - currentTime e + MARGIN_SECONDS) * 1000"
    using assms(3) by (simp add: MARGIN_SECONDS_def)
  then have m: "max CHECK_INTERVAL_MS ((nextStartTime s - currentTime e + MARGIN_SECONDS) * 1000)
      = (nextStartTime s - currentTime e + MARGIN_SECONDS) * 1000"
    by (simp add: CHECK_INTERVAL_MS_def max_def)
  have "performCheckAndAct cs e s =
           s\<lparr>audioCompletionCheckTimeout := Some (nextHandle s),
             timers := timers s @
               [(nextHandle s, PollTimer cs ((nextStartTime s - currentTime e + MARGIN_SECONDS) * 1000))],
             nextHandle := Suc (nextHandle s)\<rparr>"
    using assms by (rule check_wait)
  then show ?thesis using m big
    by (simp add: MARGIN_SECONDS_def CHECK_INTERVAL_MS_def algebra_simps)
qed

theorem recheck_delay_witness:
  "isAudioPlaying (playingUntil 11.8 :: unit hook) \<and> audioCtx (running_at 10) = Some Running
   \<and> currentTime (running_at 10) < nextStartTime (playingUntil 11.8 :: unit hook) - MARGIN_SECONDS
   \<and> timers (performCheckAndAct [] (running_at 10) (playingUntil 11.8 :: unit hook))
       = [(1, PollTimer [] 1950)]"
proof -
  have p: "isAudioPlaying (playingUntil 11.8 :: unit hook)"
    by (simp add: playingUntil_def)
  have r: "audioCtx (running_at 10) = Some Running"
    by (simp add: running_at_def)
  have w: "currentTime (running_at 10) < nextStartTime (playingUntil 11.8 :: unit hook) - MARGIN_SECONDS"
    by (simp add: running_at_def playingUntil_def MARGIN_SECONDS_def)
  show ?thesis
    using p r w recheck_delay [OF p r w, of "[]"]
    by (simp add: playingUntil_def mounted_def running_at_def MARGIN_SECONDS_def
          CHECK_INTERVAL_MS_def)
qed

lemma performCheckAndAct_fields [simp]:
  "nextStartTime (performCheckAndAct cs e s) = nextStartTime s"
  "isLiveSessionReady (performCheckAndAct cs e s) = isLiveSessionReady s"
  "liveSession (performCheckAndAct cs e s) = liveSession s"
  by (simp_all add: performCheckAndAct_def setTimeout_def setCommentaryStatus_def Let_def
        split: prod.splits)

lemma schedule_fields [simp]:
  "nextStartTime (scheduleAudioCompletionCheck cs r e s) = nextStartTime s"
  "isLiveSessionReady (scheduleAudioCompletionCheck cs r e s) = isLiveSessionReady s"
  "liveSession (scheduleAudioCompletionCheck cs r e s) = liveSession s"
  by (simp_all add: scheduleAudioCompletionCheck_def clearTimeout_def split: option.splits)

subsection \<open>Scheduling of chunks\<close>

lemma onmessage_end_fields [simp]:
  "nextStartTime (onmessage_end cs e tc s) = nextStartTime s"
  "isLiveSessionReady (onmessage_end cs e tc s) = isLiveSessionReady s"
  "liveSession (onmessage_end cs e tc s) = liveSession s"
  "onmessage_end cs e False s = s"
  "onmessage_end cs e True s = scheduleAudioCompletionCheck cs ''model_turn_content_complete'' e s"
  by (simp_all add: onmessage_end_def)

lemma onmessage_suspends:
  assumes "modelTurn msg = Some parts" and "audioPayload parts = Some p"
    and "audioCtx e = Some Running"
  shows "onmessage cs e msg s =
     s\<lparr>nextStartTime :=
         (if isAudioPlaying s then nextStartTime s else max (nextStartTime s) (currentTime e)),
       isAudioPlaying := True,
       awaiting := awaiting s @
         [\<lparr>chunkData = p, completesTurn = turnComplete msg, capturedStatus = cs\<rparr>]\<rparr>"
  using assms by (simp add: onmessage_def Let_def)

lemma resume_ok:
  assumes "dec (chunkData k) = Inr d"
  shows "onmessage_resume dec e k s =
     (onmessage_end (capturedStatus k) e (completesTurn k)
        (s\<lparr>nextStartTime := nextStartTime s + d, commentaryStatus := stSpeaking,
           log := log s @ [Start (nextStartTime s) d]\<rparr>), None)"
proof -
  have "setCommentaryStatus stSpeaking
          ((emit (Start (nextStartTime s) d) s)
             \<lparr>nextStartTime := nextStartTime (emit (Start (nextStartTime s) d) s) + d\<rparr>) =
        s\<lparr>nextStartTime := nextStartTime s + d, commentaryStatus := stSpeaking,
          log := log s @ [Start (nextStartTime s) d]\<rparr>"
    by (simp add: emit_def setCommentaryStatus_def)
  then show ?thesis
    unfolding onmessage_resume_def Let_def by (simp only: assms sum.case)
qed

lemma resume_failed:
  assumes "dec (chunkData k) = Inl err"
  shows "onmessage_resume dec e k s = (s, Some err)"
  using assms by (simp add: onmessage_resume_def)

lemma uninterrupted_resumes:
  assumes "modelTurn msg = Some parts" and "audioPayload parts = Some p"
    and "audioCtx e = Some Running"
  shows "onmessage_uninterrupted dec cs e e' msg s =
     onmessage_resume dec e' \<lparr>chunkData = p, completesTurn = turnComplete msg, capturedStatus = cs\<rparr>
       (s\<lparr>nextStartTime :=
            (if isAudioPlaying s then nextStartTime s else max (nextStartTime s) (currentTime e)),
          isAudioPlaying := True\<rparr>)"
  by (simp add: onmessage_uninterrupted_def onmessage_suspends [OF assms] decoded_def Let_def)


lemma uninterrupted_failed:
  assumes "modelTurn msg = Some parts" and "audioPayload parts = Some p"
    and "audioCtx e = Some Running" and "dec p = Inl err"
  shows "onmessage_uninterrupted dec cs e e' msg s =
     (s\<lparr>nextStartTime :=
          (if isAudioPlaying s then nextStartTime s else max (nextStartTime s) (currentTime e)),
        isAudioPlaying := True\<rparr>, Some err)"
  using assms(4) by (simp add: uninterrupted_resumes [OF assms(1-3)] resume_failed)






subsection \<open>A chunk that fails to decode\<close>

lemma threeChunks_eq:
  "(threeChunks :: 'a hook) =
     mounted\<lparr>nextStartTime := 11.5, isAudioPlaying := True, commentaryStatus := stSpeaking,
       log := [Start 10 1, Start 11 0.5]\<rparr>"
  by (simp add: threeChunks_def mounted_def onmessage_def decoded_def onmessage_resume_def
        onmessage_end_def audioChunk_def decodeTable_def running_at_def emit_def
        setCommentaryStatus_def Let_def)

text \<open>
  Against claim C6 as stated: on a freshly mounted hook (cursor 0, flag clear) a chunk
  that arrives at 5.0 s and fails to decode moves the cursor to 5.0 s and sets the
  playing flag, though nothing is scheduled.
\<close>

theorem decode_failure_counterexample:
  "nextStartTime (mounted :: unit hook) = 0
   \<and> onmessage_uninterrupted (decodeTable []) [] (running_at 5) (running_at 5)
         (audioChunk ''c1'' False) (mounted :: unit hook)
       = (mounted\<lparr>nextStartTime := 5, isAudioPlaying := True\<rparr>, Some DecodeError)"
  by (simp add: mounted_def onmessage_uninterrupted_def onmessage_def decoded_def
        onmessage_resume_def audioChunk_def decodeTable_def running_at_def Let_def)

text \<open>
  Claim C6, amended. When decoding fails, nothing is scheduled and the cursor is not
  advanced by a duration; the handler rejects with the error and arms no completion check,
  even when the message completes the turn. If the playing flag was set, the state is
  exactly as before, so later chunks are processed as if the failed one had never come:
  with three chunks of which the second fails, the third starts at the end of the first.
  If the flag was clear, the failed chunk has set it and has moved the cursor to
  \<open>max nextStartTime now\<close>.
\<close>

theorem decode_failure:
  assumes "modelTurn msg = Some parts" and "audioPayload parts = Some p"
    and "audioCtx e = Some Running" and "dec p = Inl err"
  shows "onmessage_uninterrupted dec cs e e' msg s =
           (s\<lparr>nextStartTime := (if isAudioPlaying s then nextStartTime s
                                 else max (nextStartTime s) (currentTime e)),
              isAudioPlaying := True\<rparr>, Some err)
       \<and> log (fst (onmessage_uninterrupted dec cs e e' msg s)) = log s
       \<and> timers (fst (onmessage_uninterrupted dec cs e e' msg s)) = timers s
       \<and> (if isAudioPlaying s then fst (onmessage_uninterrupted dec cs e e' msg s) = s
           else nextStartTime (fst (onmessage_uninterrupted dec cs e e' msg s))
                  = max (nextStartTime s) (currentTime e))
       \<and> log (threeChunks :: 'a hook) = [Start 10 1, Start 11 0.5]
       \<and> nextStartTime (threeChunks :: 'a hook) = 11.5
       \<and> onmessage cs e msg s =
           s\<lparr>nextStartTime := (if isAudioPlaying s then nextStartTime s
                                else max (nextStartTime s) (currentTime e)),
             isAudioPlaying := True,
             awaiting := awaiting s @
               [\<lparr>chunkData = p, completesTurn = turnComplete msg, capturedStatus = cs\<rparr>]\<rparr>
       \<and> onmessage_resume dec e'
             \<lparr>chunkData = p, completesTurn = turnComplete msg, capturedStatus = cs\<rparr> t
           = (t, Some err)
       \<and> decoded dec (length (awaiting s)) e' (onmessage cs e msg s)
           = onmessage_uninterrupted dec cs e e' msg s"
proof -
  have u: "onmessage_uninterrupted dec cs e e' msg s =
           (s\<lparr>nextStartTime := (if isAudioPlaying s then nextStartTime s
                                 else max (nextStartTime s) (currentTime e)),
              isAudioPlaying := True\<rparr>, Some err)"
    using assms by (rule uninterrupted_failed [where dec = dec and p = p])
  have a: "onmessage cs e msg s =
           s\<lparr>nextStartTime := (if isAudioPlaying s then nextStartTime s
                                else max (nextStartTime s) (currentTime e)),
             isAudioPlaying := True,
             awaiting := awaiting s @
               [\<lparr>chunkData = p, completesTurn = turnComplete msg, capturedStatus = cs\<rparr>]\<rparr>"
    by (rule onmessage_suspends [OF assms(1-3)])
  have r: "onmessage_resume dec e'
             \<lparr>chunkData = p, completesTurn = turnComplete msg, capturedStatus = cs\<rparr> t
           = (t, Some err)"
    using assms(4) by (simp add: resume_failed)
  have d: "decoded dec (length (awaiting s)) e' (onmessage cs e msg s)
           = onmessage_uninterrupted dec cs e e' msg s"
    by (simp add: onmessage_uninterrupted_def a Let_def)
  have f: "isAudioPlaying s \<Longrightarrow> fst (onmessage_uninterrupted dec cs e e' msg s) = s"
    by (simp add: u)
  show ?thesis
    using u a r d f by (simp add: threeChunks_eq)
qed

theorem decode_failure_witness:
  "fst (onmessage_uninterrupted (decodeTable []) [] (running_at 10.2) (running_at 10.2)
         (audioChunk ''c2'' True)
         (playingUntil 11 :: unit hook)) = playingUntil 11
   \<and> snd (onmessage_uninterrupted (decodeTable []) [] (running_at 10.2) (running_at 10.2)
         (audioChunk ''c2'' True)
         (playingUntil 11 :: unit hook)) = Some DecodeError"
proof -
  let ?parts = "[\<lparr>inlineData = Some \<lparr>mimeType = Some ''audio/pcm'', data = Some ''c2''\<rparr>\<rparr>]"
  have 1: "modelTurn (audioChunk ''c2'' True) = Some ?parts"
    by (simp add: audioChunk_def)
  have 2: "audioPayload ?parts = Some ''c2''" by simp
  have 3: "audioCtx (running_at 10.2) = Some Running" by (simp add: running_at_def)
  have 4: "decodeTable [] ''c2'' = Inl DecodeError" by (simp add: decodeTable_def)
  have p: "isAudioPlaying (playingUntil 11 :: unit hook)" by (simp add: playingUntil_def)
  note d = decode_failure [where msg = "audioChunk ''c2'' True" and p = "''c2''"
      and parts = ?parts and e = "running_at 10.2" and dec = "decodeTable []"
      and err = DecodeError and cs = "[]" and e' = "running_at 10.2" and s = "playingUntil 11 :: unit hook", OF 1 2 3 4]
  from d [THEN conjunct2, THEN conjunct2, THEN conjunct2, THEN conjunct1] p
  have a: "fst (onmessage_uninterrupted (decodeTable []) [] (running_at 10.2) (running_at 10.2)
         (audioChunk ''c2'' True)
         (playingUntil 11 :: unit hook)) = playingUntil 11"
    by simp
  from d [THEN conjunct1] have b: "snd (onmessage_uninterrupted (decodeTable []) [] (running_at 10.2) (running_at 10.2)
         (audioChunk ''c2'' True)
         (playingUntil 11 :: unit hook)) = Some DecodeError"
    by simp
  from a b show ?thesis by simp
qed

subsection \<open>Transport errors and the end of the session\<close>

lemma clearTimeout_fields [simp]:
  "isAudioPlaying (clearTimeout h s) = isAudioPlaying s"
  "pendingNextBallAction (clearTimeout h s) = pendingNextBallAction s"
  "safetyNetNextBallTimeout (clearTimeout h s) = safetyNetNextBallTimeout s"
  "audioCompletionCheckTimeout (clearTimeout h s) = audioCompletionCheckTimeout s"
  "log (clearTimeout h s) = log s"
  "nextHandle (clearTimeout h s) = nextHandle s"
  "commentaryStatus (clearTimeout h s) = commentaryStatus s"
  "awaiting (clearTimeout h s) = awaiting s"
  "timers (clearTimeout h s) = filter (\<lambda>kt. fst kt \<noteq> h) (timers s)"
  by (simp_all add: clearTimeout_def)

lemma schedule_idle:
  assumes "\<not> isAudioPlaying s"
  shows "\<not> isAudioPlaying (scheduleAudioCompletionCheck cs r e s)"
    and "pendingNextBallAction (scheduleAudioCompletionCheck cs r e s) = None"
    and "audioCompletionCheckTimeout (scheduleAudioCompletionCheck cs r e s) = None"
    and "log (scheduleAudioCompletionCheck cs r e s) =
           log s @ (case pendingNextBallAction s of None \<Rightarrow> [] | Some a \<Rightarrow> [RunAction a])"
    and "nextHandle (scheduleAudioCompletionCheck cs r e s) = nextHandle s"
  using assms
  by (simp_all add: scheduleAudioCompletionCheck_def check_idle setCommentaryStatus_def
        split: option.splits)

text \<open>
  Claim C7. A transport error and the end of the session clear the playing flag and arm
  the detector; its check takes the idle branch at once: no poll is left behind, and a
  pending next-ball action is taken out of the slot and run, exactly once.
\<close>

theorem transport_failure_runs_pending:
  "\<not> isAudioPlaying (onerror cs e s)
   \<and> pendingNextBallAction (onerror cs e s) = None
   \<and> audioCompletionCheckTimeout (onerror cs e s) = None
   \<and> nextHandle (onerror cs e s) = nextHandle s
   \<and> log (onerror cs e s) =
       log s @ (case pendingNextBallAction s of None \<Rightarrow> [] | Some a \<Rightarrow> [RunAction a])
   \<and> \<not> isLiveSessionReady (onerror cs e s)
   \<and> \<not> isAudioPlaying (onclose cs e s)
   \<and> pendingNextBallAction (onclose cs e s) = None
   \<and> audioCompletionCheckTimeout (onclose cs e s) = None
   \<and> nextHandle (onclose cs e s) = nextHandle s
   \<and> log (onclose cs e s) =
       log s @ (case pendingNextBallAction s of None \<Rightarrow> [] | Some a \<Rightarrow> [RunAction a])
   \<and> \<not> isLiveSessionReady (onclose cs e s) \<and> \<not> liveSession (onclose cs e s)"
  by (simp add: onerror_def onclose_def schedule_idle setCommentaryStatus_def)

theorem transport_failure_runs_pending_witness:
  "log (onerror [] (running_at 3) ((playingUntil 5 :: nat hook)\<lparr>pendingNextBallAction := Some 7\<rparr>))
     = [RunAction 7]
   \<and> log (onclose [] (running_at 3) ((playingUntil 5 :: nat hook)\<lparr>pendingNextBallAction := Some 7\<rparr>))
     = [RunAction 7]"
  using transport_failure_runs_pending
    [of "[]" "running_at 3" "(playingUntil 5 :: nat hook)\<lparr>pendingNextBallAction := Some 7\<rparr>"]
  by (simp add: playingUntil_def mounted_def)

subsection \<open>The cursor never moves back\<close>

lemma setTimeout_fields [simp]:
  "nextStartTime (snd (setTimeout t s)) = nextStartTime s"
  "isAudioPlaying (snd (setTimeout t s)) = isAudioPlaying s"
  "pendingNextBallAction (snd (setTimeout t s)) = pendingNextBallAction s"
  "safetyNetNextBallTimeout (snd (setTimeout t s)) = safetyNetNextBallTimeout s"
  "audioCompletionCheckTimeout (snd (setTimeout t s)) = audioCompletionCheckTimeout s"
  "log (snd (setTimeout t s)) = log s"
  "commentaryStatus (snd (setTimeout t s)) = commentaryStatus s"
  "awaiting (snd (setTimeout t s)) = awaiting s"
  "timers (snd (setTimeout t s)) = timers s @ [(nextHandle s, t)]"
  "nextHandle (snd (setTimeout t s)) = Suc (nextHandle s)"
  "fst (setTimeout t s) = nextHandle s"
  by (simp_all add: setTimeout_def)

lemma clearTimeout_cursor [simp]: "nextStartTime (clearTimeout h s) = nextStartTime s"
  by (simp add: clearTimeout_def)

lemma consumeAndRun_cursor [simp]: "nextStartTime (consumeAndRun s) = nextStartTime s"
  by (simp add: consumeAndRun_def emit_def Let_def split: option.splits)

lemma setPendingAction_cursor [simp]: "nextStartTime (setPendingAction fn s) = nextStartTime s"
  by (simp add: setPendingAction_def Let_def split: option.splits prod.splits)
    (auto simp: setTimeout_def)

lemma fireTimeout_cursor [simp]: "nextStartTime (fireTimeout h e s) = nextStartTime s"
  by (simp add: fireTimeout_def split: option.splits timer.splits)

lemma trigger_cursor [simp]:
  "nextStartTime (snd (triggerDynamicCommentary apiKey prompt sendOk cs e s)) = nextStartTime s"
  by (simp add: triggerDynamicCommentary_def setCommentaryStatus_def emit_def Let_def
        split: sum.splits)

lemma onmessage_cursor:
  "nextStartTime (onmessage cs e msg s) = nextStartTime s
   \<or> nextStartTime (onmessage cs e msg s) = max (nextStartTime s) (currentTime e)"
  by (simp add: onmessage_def Let_def split: option.splits)

lemma decoded_cursor:
  "nextStartTime (fst (decoded dec i e s)) = nextStartTime s
   \<or> (\<exists>p d. dec p = Inr d \<and> nextStartTime (fst (decoded dec i e s)) = nextStartTime s + d)"
  by (auto simp: decoded_def onmessage_resume_def emit_def setCommentaryStatus_def Let_def
        split: sum.splits)

lemma step_cursor:
  "nextStartTime (step dec (cs, e, ev) s) = nextStartTime s
   \<or> nextStartTime (step dec (cs, e, ev) s) = max (nextStartTime s) (currentTime e)
   \<or> (\<exists>p d. dec p = Inr d
        \<and> (nextStartTime (step dec (cs, e, ev) s) = nextStartTime s + d
           \<or> nextStartTime (step dec (cs, e, ev) s) = max (nextStartTime s) (currentTime e) + d))"
proof (cases ev)
  case (Message msg)
  then show ?thesis using onmessage_cursor [of cs e msg s] by auto
next
  case (Decoded i)
  then show ?thesis using decoded_cursor [of dec i e s] by auto
qed (simp_all add: onopen_def onerror_def onclose_def setCommentaryStatus_def)

lemma step_cursor_mono:
  assumes "\<forall>p d. dec p = Inr d \<longrightarrow> 0 \<le> d"
  shows "nextStartTime s \<le> nextStartTime (step dec x s)"
proof -
  obtain cs e ev where x: "x = (cs, e, ev)" by (cases x)
  from step_cursor [of dec cs e ev s]
  consider "nextStartTime (step dec (cs, e, ev) s) = nextStartTime s"
    | "nextStartTime (step dec (cs, e, ev) s) = max (nextStartTime s) (currentTime e)"
    | p d where "dec p = Inr d" and "nextStartTime (step dec (cs, e, ev) s) = nextStartTime s + d"
    | p d where "dec p = Inr d"
        and "nextStartTime (step dec (cs, e, ev) s) = max (nextStartTime s) (currentTime e) + d"
    by blast
  then show ?thesis
  proof cases
    case 1
    then show ?thesis by (simp add: x)
  next
    case 2
    then show ?thesis by (simp add: x)
  next
    case 3
    moreover from 3 assms have "0 \<le> d" by blast
    ultimately show ?thesis by (simp add: x)
  next
    case 4
    moreover from 4 assms have "0 \<le> d" by blast
    ultimately show ?thesis by (simp add: x max_def)
  qed
qed

lemma run_cursor_mono:
  assumes "\<forall>p d. dec p = Inr d \<longrightarrow> 0 \<le> d"
  shows "nextStartTime s \<le> nextStartTime (run dec xs s)"
proof (induction xs arbitrary: s)
  case Nil
  then show ?case by simp
next
  case (Cons x xs)
  have "nextStartTime s \<le> nextStartTime (step dec x s)"
    using assms by (rule step_cursor_mono)
  also have "\<dots> \<le> nextStartTime (run dec xs (step dec x s))"
    by (rule Cons.IH)
  finally show ?case by simp
qed

lemma initLiveSession_cursor:
  "nextStartTime (fst (initLiveSession audioOk e conn s)) =
     (if audioOk \<and> audioCtx e = Some Running then currentTime e else nextStartTime s)"
  by (simp add: initLiveSession_def setCommentaryStatus_def emit_def Let_def
        split: connect_result.splits)

text \<open>
  Claim C8. When a session starts, the cursor is set to the reading of the clock. From
  then on every event of the session leaves the cursor where it is, moves it to
  \<open>max nextStartTime now\<close>, or adds the duration of a decoded chunk to one of the two;
  with durations that are not negative, no event and no run of events moves it back.
\<close>

theorem cursor_never_rewinds:
  assumes "\<forall>p d. dec p = Inr d \<longrightarrow> 0 \<le> d"
  shows "nextStartTime s \<le> nextStartTime (step dec (cs, e, ev) s)
       \<and> nextStartTime s \<le> nextStartTime (run dec xs s)
       \<and> (nextStartTime (step dec (cs, e, ev) s) = nextStartTime s
          \<or> nextStartTime (step dec (cs, e, ev) s) = max (nextStartTime s) (currentTime e)
          \<or> (\<exists>p d. dec p = Inr d
               \<and> (nextStartTime (step dec (cs, e, ev) s) = nextStartTime s + d
                  \<or> nextStartTime (step dec (cs, e, ev) s)
                      = max (nextStartTime s) (currentTime e) + d)))
       \<and> nextStartTime (fst (initLiveSession audioOk e conn s)) =
           (if audioOk \<and> audioCtx e = Some Running then currentTime e else nextStartTime s)"
proof -
  show ?thesis
    using step_cursor_mono [OF assms, of s "(cs, e, ev)"] run_cursor_mono [OF assms, of s xs]
      step_cursor [of dec cs e ev s] initLiveSession_cursor [of audioOk e conn s]
    by blast
qed

theorem cursor_never_rewinds_witness:
  "nextStartTime ((mounted :: unit hook)\<lparr>nextStartTime := 10\<rparr>) \<le> nextStartTime (twoChunks :: unit hook)
   \<and> nextStartTime (fst (initLiveSession True (running_at 3) Connected (twoChunks :: unit hook))) = 3"
proof -
  let ?dec = "decodeTable [(''c1'', 1), (''c2'', 0.8)]"
  have d: "\<forall>p d. ?dec p = Inr d \<longrightarrow> 0 \<le> d"
    by (simp add: decodeTable_def)
  note t = cursor_never_rewinds [OF d, where s = "(mounted :: unit hook)\<lparr>nextStartTime := 10\<rparr>"
      and xs = "[('''', running_at 10, Message (audioChunk ''c1'' False)),
                 ('''', running_at 10, Decoded 0),
                 ('''', running_at 10, Message (audioChunk ''c2'' True)),
                 ('''', running_at 10, Decoded 0)]"]
  note u = cursor_never_rewinds [OF d, where s = "twoChunks :: unit hook" and audioOk = True
      and e = "running_at 3" and conn = Connected]
  from t [THEN conjunct2, THEN conjunct1]
  have a: "nextStartTime ((mounted :: unit hook)\<lparr>nextStartTime := 10\<rparr>) \<le> nextStartTime (twoChunks :: unit hook)"
    by (simp add: twoChunks_def)
  from u [THEN conjunct2, THEN conjunct2, THEN conjunct2]
  have b: "nextStartTime (fst (initLiveSession True (running_at 3) Connected (twoChunks :: unit hook))) = 3"
    by (simp add: running_at_def)
  from a b show ?thesis by simp
qed

subsection \<open>At most one pending poll\<close>

lemma runPending_timers:
  "timers (runPendingNextBallAction s) = timers s
   \<or> (\<exists>h. timers (runPendingNextBallAction s) = filter (\<lambda>kt. fst kt \<noteq> h) (timers s))"
  by (auto simp: runPendingNextBallAction_def emit_def Let_def split: option.splits)

lemma runPending_safety [simp]:
  "safetyNetNextBallTimeout (runPendingNextBallAction s) =
     (case pendingNextBallAction s of
        None \<Rightarrow> safetyNetNextBallTimeout s
      | Some a \<Rightarrow> (case safetyNetNextBallTimeout s of
                     None \<Rightarrow> None
                   | Some h \<Rightarrow> if h \<noteq> 0 then None else Some h))"
  by (simp add: runPendingNextBallAction_def emit_def Let_def split: option.splits)

lemma consumeAndRun_fields [simp]:
  "isAudioPlaying (consumeAndRun s) = isAudioPlaying s"
  "commentaryStatus (consumeAndRun s) = commentaryStatus s"
  "audioCompletionCheckTimeout (consumeAndRun s) = audioCompletionCheckTimeout s"
  "nextHandle (consumeAndRun s) = nextHandle s"
  "pendingNextBallAction (consumeAndRun s) = None"
  "log (consumeAndRun s) =
     log s @ (case pendingNextBallAction s of None \<Rightarrow> [] | Some a \<Rightarrow> [RunAction a])"
  by (simp_all add: consumeAndRun_def emit_def Let_def split: option.splits)

lemma consumeAndRun_timers:
  "timers (consumeAndRun s) = timers s
   \<or> (\<exists>h. timers (consumeAndRun s) = filter (\<lambda>kt. fst kt \<noteq> h) (timers s))"
  by (auto simp: consumeAndRun_def emit_def Let_def split: option.splits)

lemma poll_inv_filtered:
  assumes "poll_inv s" and "nextHandle s' = nextHandle s"
    and "audioCompletionCheckTimeout s' = audioCompletionCheckTimeout s"
    and "timers s' = timers s \<or> (\<exists>h. timers s' = filter (\<lambda>kt. fst kt \<noteq> h) (timers s))"
  shows "poll_inv s'"
  using assms
  by (auto simp: poll_inv_def handles_ok_def pollHandles_def list_all_iff distinct_map_filter)
    blast+

lemma no_polls_filtered:
  assumes "handles_ok s" and "pollHandles s = []" and "nextHandle s' = nextHandle s"
    and "timers s' = timers s \<or> (\<exists>h. timers s' = filter (\<lambda>kt. fst kt \<noteq> h) (timers s))"
  shows "handles_ok s' \<and> pollHandles s' = []"
  using assms
  by (auto simp: handles_ok_def pollHandles_def list_all_iff distinct_map_filter filter_empty_conv)

lemma check_poll_inv:
  assumes "handles_ok s" and "pollHandles s = []"
  shows "poll_inv (performCheckAndAct cs e s)"
proof (cases "\<not> isAudioPlaying s \<or> audioCtx e \<noteq> Some Running
    \<or> nextStartTime s - MARGIN_SECONDS \<le> currentTime e")
  case True
  have "\<exists>s0. performCheckAndAct cs e s = runPendingNextBallAction s0
      \<and> timers s0 = timers s \<and> nextHandle s0 = nextHandle s"
  proof (cases "\<not> isAudioPlaying s \<or> audioCtx e \<noteq> Some Running")
    case True
    show ?thesis
      by (subst check_idle [OF True]) (rule exI, rule conjI, rule refl, simp)
  next
    case False
    with True show ?thesis
      by (subst check_done) (simp, simp, simp, rule exI, rule conjI, rule refl, simp)
  qed
  then obtain s0 where eq: "performCheckAndAct cs e s = runPendingNextBallAction s0"
    and s0: "timers s0 = timers s" "nextHandle s0 = nextHandle s"
    by blast
  have "handles_ok (runPendingNextBallAction s0) \<and> pollHandles (runPendingNextBallAction s0) = []"
    using assms s0 runPending_timers [of s0]
    by (intro no_polls_filtered [of s]) auto
  then show ?thesis by (simp add: eq poll_inv_def)
next
  case False
  then have "performCheckAndAct cs e s =
     s\<lparr>audioCompletionCheckTimeout := Some (nextHandle s),
       timers := timers s @ [(nextHandle s,
          PollTimer cs ((nextStartTime s - currentTime e + MARGIN_SECONDS) * 1000))],
       nextHandle := Suc (nextHandle s)\<rparr>"
    by (intro check_wait) auto
  then show ?thesis using assms
    by (auto simp: poll_inv_def handles_ok_def pollHandles_def list_all_iff)
qed

lemma cancelled_poll:
  assumes "poll_inv s"
  shows "handles_ok (case audioCompletionCheckTimeout s of
            None \<Rightarrow> s
          | Some h \<Rightarrow> if h \<noteq> 0 then (clearTimeout h s)\<lparr>audioCompletionCheckTimeout := None\<rparr> else s)"
    and "pollHandles (case audioCompletionCheckTimeout s of
            None \<Rightarrow> s
          | Some h \<Rightarrow> if h \<noteq> 0 then (clearTimeout h s)\<lparr>audioCompletionCheckTimeout := None\<rparr> else s) = []"
proof -
  have pos: "\<And>k t. (k, t) \<in> set (timers s) \<Longrightarrow> 0 < k"
    using assms by (auto simp: poll_inv_def handles_ok_def list_all_iff)
  have ref: "\<And>k t. (k, t) \<in> set (timers s) \<Longrightarrow> isPoll t \<Longrightarrow> audioCompletionCheckTimeout s = Some k"
    using assms by (auto simp: poll_inv_def pollHandles_def list_all_iff)
  show "handles_ok (case audioCompletionCheckTimeout s of
            None \<Rightarrow> s
          | Some h \<Rightarrow> if h \<noteq> 0 then (clearTimeout h s)\<lparr>audioCompletionCheckTimeout := None\<rparr> else s)"
    using assms
    by (auto simp: poll_inv_def handles_ok_def list_all_iff distinct_map_filter split: option.splits)
  show "pollHandles (case audioCompletionCheckTimeout s of
            None \<Rightarrow> s
          | Some h \<Rightarrow> if h \<noteq> 0 then (clearTimeout h s)\<lparr>audioCompletionCheckTimeout := None\<rparr> else s) = []"
  proof (cases "audioCompletionCheckTimeout s")
    case None
    then show ?thesis using ref by (auto simp: pollHandles_def filter_empty_conv)
  next
    case (Some h)
    show ?thesis
    proof (cases "h = 0")
      case True
      then show ?thesis using Some ref pos
        by (fastforce simp: pollHandles_def filter_empty_conv)
    next
      case False
      then show ?thesis using Some ref
        by (auto simp: pollHandles_def filter_empty_conv)
    qed
  qed
qed

lemma schedule_poll_inv:
  assumes "poll_inv s"
  shows "poll_inv (scheduleAudioCompletionCheck cs r e s)"
  unfolding scheduleAudioCompletionCheck_def
  using cancelled_poll [OF assms] by (rule check_poll_inv)

lemma poll_inv_cong:
  "poll_inv s \<Longrightarrow> timers s' = timers s \<Longrightarrow> nextHandle s' = nextHandle s \<Longrightarrow>
   audioCompletionCheckTimeout s' = audioCompletionCheckTimeout s \<Longrightarrow> poll_inv s'"
  by (simp add: poll_inv_def handles_ok_def pollHandles_def)

lemma onmessage_end_poll_inv:
  assumes "poll_inv s"
  shows "poll_inv (onmessage_end cs e tc s)"
  using assms by (cases tc) (simp_all add: schedule_poll_inv)

lemma onmessage_poll_inv:
  assumes "poll_inv s"
  shows "poll_inv (onmessage cs e msg s)"
proof (cases "modelTurn msg")
  case None
  then show ?thesis using assms by (simp add: onmessage_def schedule_poll_inv)
next
  case (Some parts)
  show ?thesis
  proof (cases "audioPayload parts")
    case None
    then show ?thesis using Some assms by (simp add: onmessage_def onmessage_end_poll_inv)
  next
    case (Some p)
    show ?thesis
    proof (cases "audioCtx e = Some Running")
      case True
      show ?thesis
        unfolding onmessage_suspends [OF \<open>modelTurn msg = Some parts\<close> Some True]
        using assms by (rule poll_inv_cong) simp_all
    next
      case False
      then show ?thesis using Some \<open>modelTurn msg = Some parts\<close> assms
        by (simp add: onmessage_def onmessage_end_poll_inv)
    qed
  qed
qed

lemma resume_poll_inv:
  assumes "poll_inv s"
  shows "poll_inv (fst (onmessage_resume dec e k s))"
proof (cases "dec (chunkData k)")
  case (Inl err)
  then show ?thesis using assms by (simp add: resume_failed)
next
  case (Inr d)
  have "poll_inv (s\<lparr>nextStartTime := nextStartTime s + d, commentaryStatus := stSpeaking,
           log := log s @ [Start (nextStartTime s) d]\<rparr>)"
    using assms by (rule poll_inv_cong) simp_all
  then show ?thesis using Inr
    by (simp add: resume_ok [where dec = dec and k = k and d = d] onmessage_end_poll_inv)
qed

lemma decoded_poll_inv:
  assumes "poll_inv s"
  shows "poll_inv (fst (decoded dec i e s))"
proof (cases "i < length (awaiting s)")
  case True
  have "poll_inv (s\<lparr>awaiting := take i (awaiting s) @ drop (Suc i) (awaiting s)\<rparr>)"
    using assms by (rule poll_inv_cong) simp_all
  then show ?thesis using True by (simp add: decoded_def resume_poll_inv)
next
  case False
  then show ?thesis using assms by (simp add: decoded_def)
qed

lemma fireTimeout_poll_inv:
  assumes "poll_inv s"
  shows "poll_inv (fireTimeout h e s)"
proof (cases "map_of (timers s) h")
  case None
  then show ?thesis using assms by (simp add: fireTimeout_def)
next
  case (Some t)
  then have mem: "(h, t) \<in> set (timers s)" by (rule map_of_SomeD)
  show ?thesis
  proof (cases t)
    case (PollTimer cs ms)
    have ref: "\<And>k u. (k, u) \<in> set (timers s) \<Longrightarrow> isPoll u \<Longrightarrow> audioCompletionCheckTimeout s = Some k"
      using assms by (auto simp: poll_inv_def pollHandles_def list_all_iff)
    have "audioCompletionCheckTimeout s = Some h"
      using ref [OF mem] PollTimer by simp
    then have none: "pollHandles (clearTimeout h s) = []"
      using ref by (fastforce simp: pollHandles_def filter_empty_conv)
    have ok: "handles_ok (clearTimeout h s)"
      using assms by (auto simp: poll_inv_def handles_ok_def list_all_iff distinct_map_filter)
    show ?thesis
      using Some PollTimer check_poll_inv [OF ok none] by (simp add: fireTimeout_def)
  next
    case SafetyNetTimer
    have "poll_inv (clearTimeout h s)"
      using assms by (rule poll_inv_filtered) auto
    then have "poll_inv (consumeAndRun (clearTimeout h s))"
      by (rule poll_inv_filtered) (use consumeAndRun_timers [of "clearTimeout h s"] in simp_all)
    then show ?thesis using Some SafetyNetTimer by (simp add: fireTimeout_def)
  qed
qed

lemma setPendingAction_poll_inv:
  assumes "poll_inv s"
  shows "poll_inv (setPendingAction fn s)"
  using assms
  by (auto simp: setPendingAction_def setTimeout_def poll_inv_def handles_ok_def pollHandles_def
        list_all_iff distinct_map_filter Let_def split: option.splits)

lemma step_poll_inv:
  assumes "poll_inv s"
  shows "poll_inv (step dec x s)"
proof -
  obtain cs e ev where x: "x = (cs, e, ev)" by (cases x)
  have upd: "poll_inv (scheduleAudioCompletionCheck cs r e s')"
    if "timers s' = timers s" "nextHandle s' = nextHandle s"
      "audioCompletionCheckTimeout s' = audioCompletionCheckTimeout s" for s' r
    using assms that by (intro schedule_poll_inv poll_inv_cong [of s s'])
  show ?thesis
  proof (cases ev)
    case Open
    have "poll_inv (onopen s)"
      using assms by (rule poll_inv_cong) (simp_all add: onopen_def setCommentaryStatus_def)
    then show ?thesis using Open by (simp add: x)
  next
    case (Message msg)
    then show ?thesis using assms by (simp add: x onmessage_poll_inv)
  next
    case (Decoded i)
    then show ?thesis using assms by (simp add: x decoded_poll_inv)
  next
    case ErrorEvent
    then show ?thesis by (simp add: x onerror_def upd setCommentaryStatus_def)
  next
    case CloseEvent
    then show ?thesis by (simp add: x onclose_def upd setCommentaryStatus_def)
  next
    case (Trigger apiKey prompt sendOk)
    have c: "poll_inv (scheduleAudioCompletionCheck cs r e
        ((setCommentaryStatus v (setCommentaryStatus w s))\<lparr>isAudioPlaying := False\<rparr>))" for r v w
      by (rule upd) (simp_all add: setCommentaryStatus_def)
    have c2: "poll_inv (scheduleAudioCompletionCheck cs r e
        ((setCommentaryStatus u (setCommentaryStatus v (setCommentaryStatus w s)))\<lparr>isAudioPlaying := False\<rparr>))" for r u v w
      by (rule upd) (simp_all add: setCommentaryStatus_def)
    have k: "poll_inv (setCommentaryStatus v s)" for v
      using assms by (rule poll_inv_cong) (simp_all add: setCommentaryStatus_def)
    have k2: "poll_inv (emit ef (setCommentaryStatus v (setCommentaryStatus w s)))" for v w ef
      using assms by (rule poll_inv_cong) (simp_all add: setCommentaryStatus_def emit_def)
    show ?thesis using assms
      by (simp add: x Trigger triggerDynamicCommentary_def Let_def c c2 k k2 split: sum.splits)
  next
    case (TimerFire h)
    then show ?thesis using assms by (simp add: x fireTimeout_poll_inv)
  next
    case (SetPending fn)
    then show ?thesis using assms by (simp add: x setPendingAction_poll_inv)
  qed
qed

lemma run_poll_inv: "poll_inv s \<Longrightarrow> poll_inv (run dec xs s)"
  by (induction xs arbitrary: s) (simp_all add: step_poll_inv)

lemma poll_inv_at_most_one: "poll_inv s \<Longrightarrow> length (pollHandles s) \<le> 1"
proof -
  assume a: "poll_inv s"
  have d: "distinct (pollHandles s)"
    using a by (simp add: poll_inv_def handles_ok_def pollHandles_def distinct_map_filter)
  have "set (pollHandles s) \<subseteq> set_option (audioCompletionCheckTimeout s)"
    using a by (auto simp: poll_inv_def list_all_iff)
  then have "card (set (pollHandles s)) \<le> 1"
  proof (cases "audioCompletionCheckTimeout s")
    case None
    then show ?thesis using \<open>set (pollHandles s) \<subseteq> set_option (audioCompletionCheckTimeout s)\<close>
      by simp
  next
    case (Some h)
    then have "set (pollHandles s) \<subseteq> {h}"
      using \<open>set (pollHandles s) \<subseteq> set_option (audioCompletionCheckTimeout s)\<close> by simp
    then have "card (set (pollHandles s)) \<le> card {h}"
      by (intro card_mono) simp_all
    then show ?thesis by simp
  qed
  then show ?thesis using d by (simp add: distinct_card)
qed

lemma poll_inv_mounted: "poll_inv mounted"
  by (simp add: poll_inv_def handles_ok_def pollHandles_def mounted_def)

lemma check_cases:
  obtains (declared) s0 where "performCheckAndAct cs e s = runPendingNextBallAction s0"
      and "timers s0 = timers s" and "nextHandle s0 = nextHandle s"
      and "pendingNextBallAction s0 = pendingNextBallAction s"
      and "safetyNetNextBallTimeout s0 = safetyNetNextBallTimeout s"
      and "audioCompletionCheckTimeout s0 = None" and "log s0 = log s"
      and "\<not> isAudioPlaying s \<or> audioCtx e \<noteq> Some Running
           \<or> nextStartTime s - MARGIN_SECONDS \<le> currentTime e"
  | (waiting) "performCheckAndAct cs e s =
         s\<lparr>audioCompletionCheckTimeout := Some (nextHandle s),
           timers := timers s @ [(nextHandle s,
              PollTimer cs ((nextStartTime s - currentTime e + MARGIN_SECONDS) * 1000))],
           nextHandle := Suc (nextHandle s)\<rparr>"
      and "isAudioPlaying s" and "audioCtx e = Some Running"
      and "currentTime e < nextStartTime s - MARGIN_SECONDS"
proof (cases "\<not> isAudioPlaying s \<or> audioCtx e \<noteq> Some Running")
  case True
  show ?thesis
    by (rule declared [OF check_idle [OF True]]) (use True in auto)
next
  case playing: False
  show ?thesis
  proof (cases "nextStartTime s - MARGIN_SECONDS \<le> currentTime e")
    case True
    have "performCheckAndAct cs e s =
       runPendingNextBallAction
         (s\<lparr>audioCompletionCheckTimeout := None, isAudioPlaying := False,
            commentaryStatus := readyOrDisconnected s\<rparr>)"
      using playing True by (intro check_done) auto
    then show ?thesis
      by (rule declared) (use True in auto)
  next
    case False
    show ?thesis
      by (rule waiting) (use playing False check_wait [of s e cs] in auto)
  qed
qed

lemma check_timer_keys:
  "fst ` set (timers (performCheckAndAct cs e s)) \<subseteq> insert (nextHandle s) (fst ` set (timers s))"
proof (cases rule: check_cases [of cs e s])
  case (declared s0)
  then show ?thesis using runPending_timers [of s0] by auto
next
  case waiting
  then show ?thesis by auto
qed

lemma check_polls:
  assumes "handles_ok s" and "pollHandles s = []"
  shows "pollHandles (performCheckAndAct cs e s) =
           (if isAudioPlaying s \<and> audioCtx e = Some Running
               \<and> currentTime e < nextStartTime s - MARGIN_SECONDS
            then [nextHandle s] else [])"
proof (cases rule: check_cases [of cs e s])
  case (declared s0)
  have "handles_ok (runPendingNextBallAction s0) \<and> pollHandles (runPendingNextBallAction s0) = []"
    using assms declared(2,3) runPending_timers [of s0] by (intro no_polls_filtered [of s]) auto
  then show ?thesis using declared by auto
next
  case waiting
  have "pollHandles (performCheckAndAct cs e s) = pollHandles s @ [nextHandle s]"
    by (simp add: waiting(1) pollHandles_def)
  then show ?thesis using assms waiting by simp
qed

text \<open>
  Claim C5. Arming the detector cancels the poll that was pending before it runs its own
  check: afterwards the only pending poll is the one this check has set, if it has set
  one; the handle of the cancelled poll is no longer in the table of timeouts, and its
  firing calls nothing. From a state in which every pending poll is the one the ref
  holds, as in the freshly mounted hook, every run of events keeps it so, and at most one
  poll is pending at any time.
\<close>

theorem single_outstanding_poll:
  assumes "poll_inv s"
  shows "poll_inv (run dec xs s) \<and> length (pollHandles (run dec xs s)) \<le> 1
       \<and> poll_inv (scheduleAudioCompletionCheck cs r e s)
       \<and> pollHandles (scheduleAudioCompletionCheck cs r e s) =
           (if isAudioPlaying s \<and> audioCtx e = Some Running
               \<and> currentTime e < nextStartTime s - MARGIN_SECONDS
            then [nextHandle s] else [])
       \<and> (\<forall>h\<in>set (pollHandles s).
             map_of (timers (scheduleAudioCompletionCheck cs r e s)) h = None
             \<and> fireTimeout h e' (scheduleAudioCompletionCheck cs r e s)
                 = scheduleAudioCompletionCheck cs r e s)
       \<and> poll_inv (mounted :: 'a hook)"
proof -
  let ?s1 = "case audioCompletionCheckTimeout s of
               None \<Rightarrow> s
             | Some h \<Rightarrow> if h \<noteq> 0 then (clearTimeout h s)\<lparr>audioCompletionCheckTimeout := None\<rparr> else s"
  let ?s' = "scheduleAudioCompletionCheck cs r e s"
  have s': "?s' = performCheckAndAct cs e ?s1"
    by (simp add: scheduleAudioCompletionCheck_def)
  have f: "isAudioPlaying ?s1 = isAudioPlaying s" "nextStartTime ?s1 = nextStartTime s"
    "nextHandle ?s1 = nextHandle s"
    by (simp_all split: option.splits)
  have run: "poll_inv (run dec xs s)"
    using assms by (rule run_poll_inv)
  have polls: "pollHandles ?s' =
           (if isAudioPlaying s \<and> audioCtx e = Some Running
               \<and> currentTime e < nextStartTime s - MARGIN_SECONDS
            then [nextHandle s] else [])"
    unfolding s' using check_polls [OF cancelled_poll [OF assms], of cs e] by (simp only: f)
  have stale: "map_of (timers ?s') h = None \<and> fireTimeout h e' ?s' = ?s'"
    if h: "h \<in> set (pollHandles s)" for h
  proof -
    have ref: "audioCompletionCheckTimeout s = Some h"
      using assms h by (auto simp: poll_inv_def list_all_iff)
    have mem: "h \<in> fst ` set (timers s)"
      using h by (auto simp: pollHandles_def)
    then have bounds: "0 < h" "h < nextHandle s"
      using assms by (auto simp: poll_inv_def handles_ok_def list_all_iff)
    have "timers ?s1 = filter (\<lambda>kt. fst kt \<noteq> h) (timers s)"
      using ref bounds by simp
    then have "h \<notin> fst ` set (timers ?s1)" by auto
    then have "h \<notin> fst ` set (timers ?s')"
      using check_timer_keys [of cs e ?s1] bounds unfolding s' f by auto
    then have "map_of (timers ?s') h = None"
      by (simp add: map_of_eq_None_iff)
    then show ?thesis by (simp add: fireTimeout_def)
  qed
  show ?thesis
    using run poll_inv_at_most_one [OF run] schedule_poll_inv [OF assms] polls stale
      poll_inv_mounted
    by blast
qed

theorem single_outstanding_poll_witness:
  "poll_inv (twoChunks :: unit hook) \<and> pollHandles (twoChunks :: unit hook) = [1]
   \<and> pollHandles (scheduleAudioCompletionCheck [] ''server_ack_turn_complete'' (running_at 10.5)
        (twoChunks :: unit hook)) = [2]
   \<and> fireTimeout 1 (running_at 12)
        (scheduleAudioCompletionCheck [] ''server_ack_turn_complete'' (running_at 10.5)
          (twoChunks :: unit hook))
       = scheduleAudioCompletionCheck [] ''server_ack_turn_complete'' (running_at 10.5) twoChunks"
proof -
  have inv: "poll_inv (twoChunks :: unit hook)"
    by (simp add: twoChunks_eq poll_inv_def handles_ok_def pollHandles_def)
  have one: "pollHandles (twoChunks :: unit hook) = [1]"
    by (simp add: twoChunks_eq pollHandles_def)
  note t = single_outstanding_poll [OF inv, where cs = "[]" and r = "''server_ack_turn_complete''"
      and e = "running_at 10.5" and e' = "running_at 12" and dec = "decodeTable []"
      and xs = "[]"]
  from t [THEN conjunct2, THEN conjunct2, THEN conjunct2, THEN conjunct1] have a: "pollHandles (scheduleAudioCompletionCheck [] ''server_ack_turn_complete''
        (running_at 10.5) (twoChunks :: unit hook)) = [2]"
    by (simp add: twoChunks_eq running_at_def MARGIN_SECONDS_def)
  from t [THEN conjunct2, THEN conjunct2, THEN conjunct2, THEN conjunct2, THEN conjunct1] one
  have b: "fireTimeout 1 (running_at 12)
        (scheduleAudioCompletionCheck [] ''server_ack_turn_complete'' (running_at 10.5)
          (twoChunks :: unit hook))
       = scheduleAudioCompletionCheck [] ''server_ack_turn_complete'' (running_at 10.5) twoChunks"
    by simp
  from inv one a b show ?thesis by simp
qed

subsection \<open>The pending action runs once\<close>

lemma handles_clear:
  "pollHandles (clearTimeout h s) = filter (\<lambda>k. k \<noteq> h) (pollHandles s)"
  "safetyHandles (clearTimeout h s) = filter (\<lambda>k. k \<noteq> h) (safetyHandles s)"
  by (simp_all add: pollHandles_def safetyHandles_def clearTimeout_def filter_map comp_def
        conj_commute)

lemma handles_ok_clear: "handles_ok s \<Longrightarrow> handles_ok (clearTimeout h s)"
  by (auto simp: handles_ok_def list_all_iff distinct_map_filter)

lemma handles_disjoint:
  assumes "handles_ok s" and "h \<in> set (pollHandles s)"
  shows "h \<notin> set (safetyHandles s)"
proof
  assume "h \<in> set (safetyHandles s)"
  then obtain u where u: "(h, u) \<in> set (timers s)" "\<not> isPoll u"
    by (auto simp: safetyHandles_def)
  from assms(2) obtain t where t: "(h, t) \<in> set (timers s)" "isPoll t"
    by (auto simp: pollHandles_def)
  have "distinct (map fst (timers s))"
    using assms(1) by (simp add: handles_ok_def)
  then have "t = u" using t(1) u(1) by (rule eq_key_imp_eq_value)
  then show False using t(2) u(2) by simp
qed

lemma handle_positive:
  assumes "handles_ok s" and "h \<in> set (pollHandles s) \<or> h \<in> set (safetyHandles s)"
  shows "0 < h" and "h < nextHandle s"
  using assms by (auto simp: handles_ok_def list_all_iff pollHandles_def safetyHandles_def)

lemma slot_inv_cong:
  "slot_inv s \<Longrightarrow> timers s' = timers s \<Longrightarrow> nextHandle s' = nextHandle s \<Longrightarrow>
   audioCompletionCheckTimeout s' = audioCompletionCheckTimeout s \<Longrightarrow>
   safetyNetNextBallTimeout s' = safetyNetNextBallTimeout s \<Longrightarrow>
   pendingNextBallAction s' = pendingNextBallAction s \<Longrightarrow> slot_inv s'"
  by (simp add: slot_inv_def handles_ok_def pollHandles_def safetyHandles_def)

lemma runs_emit [simp]:
  "runs (emit (RunAction a) s) = runs s @ [a]"
  "runs (emit (Start t d) s) = runs s"
  "runs (emit (Connect p) s) = runs s"
  "runs (emit (SendRealtimeInput p) s) = runs s"
  "runs (emit OnApiKeyError s) = runs s"
  by (simp_all add: runs_def emit_def map_filter_def)

lemma runs_cong: "log s' = log s \<Longrightarrow> runs s' = runs s"
  by (simp add: runs_def)

lemma handles_upd [simp]:
  "pollHandles (s\<lparr>pendingNextBallAction := pa\<rparr>) = pollHandles s"
  "pollHandles (s\<lparr>safetyNetNextBallTimeout := sn\<rparr>) = pollHandles s"
  "pollHandles (s\<lparr>audioCompletionCheckTimeout := ac\<rparr>) = pollHandles s"
  "safetyHandles (s\<lparr>pendingNextBallAction := pa\<rparr>) = safetyHandles s"
  "safetyHandles (s\<lparr>safetyNetNextBallTimeout := sn\<rparr>) = safetyHandles s"
  "safetyHandles (s\<lparr>audioCompletionCheckTimeout := ac\<rparr>) = safetyHandles s"
  "handles_ok (s\<lparr>pendingNextBallAction := pa\<rparr>) = handles_ok s"
  "handles_ok (s\<lparr>safetyNetNextBallTimeout := sn\<rparr>) = handles_ok s"
  "handles_ok (s\<lparr>audioCompletionCheckTimeout := ac\<rparr>) = handles_ok s"
  by (simp_all add: pollHandles_def safetyHandles_def handles_ok_def)

lemma runs_upd [simp]:
  "runs (s\<lparr>pendingNextBallAction := pa\<rparr>) = runs s"
  "runs (s\<lparr>safetyNetNextBallTimeout := sn\<rparr>) = runs s"
  "runs (s\<lparr>audioCompletionCheckTimeout := ac\<rparr>) = runs s"
  "runs (clearTimeout h s) = runs s"
  by (simp_all add: runs_def)

lemma slot_cleared:
  assumes "slot_inv s" and "safetyNetNextBallTimeout s = Some h"
  shows "slot_inv ((clearTimeout h s)\<lparr>pendingNextBallAction := None, safetyNetNextBallTimeout := None\<rparr>)"
proof -
  have ok: "handles_ok s" and sh: "safetyHandles s = [h]"
    using assms by (simp_all add: slot_inv_def)
  have "h \<notin> set (pollHandles s)"
    using handles_disjoint [OF ok, of h] sh by auto
  then have "filter (\<lambda>k. k \<noteq> h) (pollHandles s) = pollHandles s"
    by (auto simp: filter_id_conv)
  then show ?thesis
    using assms handles_ok_clear [OF ok, of h] sh
    by (simp add: slot_inv_def handles_clear)
qed

lemma runPending_slot:
  assumes "slot_inv s"
  shows "slot_inv (runPendingNextBallAction s)
       \<and> pendingNextBallAction (runPendingNextBallAction s) = None
       \<and> runs (runPendingNextBallAction s) =
           runs s @ (case pendingNextBallAction s of None \<Rightarrow> [] | Some a \<Rightarrow> [a])"
proof (cases "pendingNextBallAction s")
  case None
  then show ?thesis using assms by (simp add: runPendingNextBallAction_def)
next
  case (Some a)
  then obtain h where h: "safetyNetNextBallTimeout s = Some h"
    using assms by (auto simp: slot_inv_def)
  have "safetyHandles s = [h]" using assms h by (simp add: slot_inv_def)
  then have pos: "0 < h"
    using handle_positive(1) [of s h] assms by (simp add: slot_inv_def)
  have eq: "runPendingNextBallAction s =
      emit (RunAction a)
        ((clearTimeout h s)\<lparr>pendingNextBallAction := None, safetyNetNextBallTimeout := None\<rparr>)"
    using Some h pos by (simp add: runPendingNextBallAction_def clearTimeout_def emit_def Let_def)
  have "slot_inv (runPendingNextBallAction s)"
    unfolding eq by (rule slot_inv_cong [OF slot_cleared [OF assms h]]) (simp_all add: emit_def)
  moreover have "runs (runPendingNextBallAction s) = runs s @ [a]"
    unfolding eq by simp
  ultimately show ?thesis using Some by simp
qed

lemma consumeAndRun_slot:
  assumes "slot_inv s"
  shows "slot_inv (consumeAndRun s)
       \<and> pendingNextBallAction (consumeAndRun s) = None
       \<and> runs (consumeAndRun s) =
           runs s @ (case pendingNextBallAction s of None \<Rightarrow> [] | Some a \<Rightarrow> [a])"
proof (cases "pendingNextBallAction s")
  case None
  then show ?thesis using assms by (simp add: consumeAndRun_def)
next
  case (Some a)
  then obtain h where h: "safetyNetNextBallTimeout s = Some h"
    using assms by (auto simp: slot_inv_def)
  have eq: "consumeAndRun s =
      emit (RunAction a)
        ((clearTimeout h s)\<lparr>pendingNextBallAction := None, safetyNetNextBallTimeout := None\<rparr>)"
    using Some h by (simp add: consumeAndRun_def clearTimeout_def emit_def Let_def)
  have "slot_inv (consumeAndRun s)"
    unfolding eq by (rule slot_inv_cong [OF slot_cleared [OF assms h]]) (simp_all add: emit_def)
  moreover have "runs (consumeAndRun s) = runs s @ [a]"
    unfolding eq by simp
  ultimately show ?thesis using Some by simp
qed

lemma slotStep_cong:
  "slotStep s1 s' \<Longrightarrow> pendingNextBallAction s1 = pendingNextBallAction s \<Longrightarrow>
   safetyNetNextBallTimeout s1 = safetyNetNextBallTimeout s \<Longrightarrow> runs s1 = runs s \<Longrightarrow>
   slotStep s s'"
  by (simp add: slotStep_def)

lemma slotStep_refl: "slot_inv s \<Longrightarrow> slotStep s s"
  by (simp add: slotStep_def)

lemma check_slot:
  assumes "slot_inv (s\<lparr>audioCompletionCheckTimeout := None\<rparr>)"
  shows "slotStep s (performCheckAndAct cs e s)"
proof (cases rule: check_cases [of cs e s])
  case (declared s0)
  have "slot_inv s0"
    using assms by (rule slot_inv_cong) (simp_all add: declared)
  from runPending_slot [OF this] show ?thesis
    using declared(1,4,7) by (simp add: slotStep_def runs_cong [of s0 s])
next
  case waiting
  have ok: "handles_ok s" and ph: "pollHandles s = []"
    and sh: "safetyHandles s = (case safetyNetNextBallTimeout s of None \<Rightarrow> [] | Some h \<Rightarrow> [h])"
    and ps: "pendingNextBallAction s = None \<longleftrightarrow> safetyNetNextBallTimeout s = None"
    using assms by (simp_all add: slot_inv_def)
  have "slot_inv (performCheckAndAct cs e s)"
    unfolding waiting(1) using ok ph sh ps
    by (auto simp: slot_inv_def handles_ok_def pollHandles_def safetyHandles_def list_all_iff)
  then show ?thesis
    by (simp add: slotStep_def) (simp add: waiting(1) runs_def)
qed

lemma cancelled_slot:
  assumes "slot_inv s" and "audioCompletionCheckTimeout s = Some h"
  shows "slot_inv ((clearTimeout h s)\<lparr>audioCompletionCheckTimeout := None\<rparr>)" and "0 < h"
proof -
  have ok: "handles_ok s" and ph: "pollHandles s = [h]"
    using assms by (simp_all add: slot_inv_def)
  show "0 < h" using handle_positive(1) [OF ok, of h] ph by simp
  have "h \<notin> set (safetyHandles s)"
    using handles_disjoint [OF ok, of h] ph by simp
  then have "filter (\<lambda>k. k \<noteq> h) (safetyHandles s) = safetyHandles s"
    by (auto simp: filter_id_conv)
  then show "slot_inv ((clearTimeout h s)\<lparr>audioCompletionCheckTimeout := None\<rparr>)"
    using assms handles_ok_clear [OF ok, of h] ph
    by (simp add: slot_inv_def handles_clear)
qed

lemma schedule_slot:
  assumes "slot_inv s"
  shows "slotStep s (scheduleAudioCompletionCheck cs r e s)"
proof (cases "audioCompletionCheckTimeout s")
  case None
  have "slot_inv (s\<lparr>audioCompletionCheckTimeout := None\<rparr>)"
    using assms by (rule slot_inv_cong) (simp_all add: None)
  then show ?thesis
    using None by (simp add: scheduleAudioCompletionCheck_def check_slot)
next
  case (Some h)
  let ?s1 = "(clearTimeout h s)\<lparr>audioCompletionCheckTimeout := None\<rparr>"
  have "slot_inv (?s1\<lparr>audioCompletionCheckTimeout := None\<rparr>)"
    using cancelled_slot(1) [OF assms Some] by simp
  then have "slotStep ?s1 (performCheckAndAct cs e ?s1)"
    by (rule check_slot)
  then have "slotStep s (performCheckAndAct cs e ?s1)"
    by (rule slotStep_cong) simp_all
  then show ?thesis
    using Some cancelled_slot(2) [OF assms Some] by (simp add: scheduleAudioCompletionCheck_def)
qed

lemma schedule_slot_upd:
  assumes "slot_inv s" and "timers s' = timers s" and "nextHandle s' = nextHandle s"
    and "audioCompletionCheckTimeout s' = audioCompletionCheckTimeout s"
    and "safetyNetNextBallTimeout s' = safetyNetNextBallTimeout s"
    and "pendingNextBallAction s' = pendingNextBallAction s" and "runs s' = runs s"
  shows "slotStep s (scheduleAudioCompletionCheck cs r e s')"
proof -
  have "slot_inv s'" using assms(1-6) by (rule slot_inv_cong)
  then have "slotStep s' (scheduleAudioCompletionCheck cs r e s')" by (rule schedule_slot)
  then show ?thesis using assms(5-7) by (simp add: slotStep_def)
qed

lemma slotStep_upd:
  assumes "slot_inv s" and "timers s' = timers s" and "nextHandle s' = nextHandle s"
    and "audioCompletionCheckTimeout s' = audioCompletionCheckTimeout s"
    and "safetyNetNextBallTimeout s' = safetyNetNextBallTimeout s"
    and "pendingNextBallAction s' = pendingNextBallAction s" and "runs s' = runs s"
  shows "slotStep s s'"
  using slot_inv_cong [OF assms(1-6)] assms(5-7) by (simp add: slotStep_def)

lemma schedule_idle_slot:
  "\<not> isAudioPlaying s \<Longrightarrow> pendingNextBallAction (scheduleAudioCompletionCheck cs r e s) = None"
  by (rule schedule_idle(2))

lemma fireTimeout_slot:
  assumes "slot_inv s"
  shows "slotStep s (fireTimeout h e s)"
    and "safetyNetNextBallTimeout s = Some h \<Longrightarrow> pendingNextBallAction (fireTimeout h e s) = None"
proof -
  have ok: "handles_ok s" using assms by (simp add: slot_inv_def)
  have d: "distinct (map fst (timers s))" using ok by (simp add: handles_ok_def)
  have "slotStep s (fireTimeout h e s)
      \<and> (safetyNetNextBallTimeout s = Some h \<longrightarrow> pendingNextBallAction (fireTimeout h e s) = None)"
  proof (cases "map_of (timers s) h")
    case None
    then have "h \<notin> set (safetyHandles s)"
      by (auto simp: safetyHandles_def map_of_eq_None_iff)
    then have "safetyNetNextBallTimeout s \<noteq> Some h"
      using assms by (auto simp: slot_inv_def)
    then show ?thesis using None assms by (simp add: fireTimeout_def slotStep_refl)
  next
    case (Some t)
    then have mem: "(h, t) \<in> set (timers s)" by (rule map_of_SomeD)
    show ?thesis
    proof (cases t)
      case (PollTimer cs ms)
      then have hp: "h \<in> set (pollHandles s)"
        using mem by (force simp: pollHandles_def)
      then have ref: "audioCompletionCheckTimeout s = Some h"
        using assms by (auto simp: slot_inv_def split: option.splits)
      let ?s1 = "clearTimeout h s"
      have "slot_inv (?s1\<lparr>audioCompletionCheckTimeout := None\<rparr>)"
        by (rule cancelled_slot(1) [OF assms ref])
      then have "slotStep ?s1 (performCheckAndAct cs e ?s1)"
        by (rule check_slot)
      then have "slotStep s (performCheckAndAct cs e ?s1)"
        by (rule slotStep_cong) simp_all
      moreover have "safetyNetNextBallTimeout s \<noteq> Some h"
        using handles_disjoint [OF ok hp] assms by (auto simp: slot_inv_def)
      ultimately show ?thesis using Some PollTimer by (simp add: fireTimeout_def)
    next
      case SafetyNetTimer
      then have "h \<in> set (safetyHandles s)"
        using mem by (force simp: safetyHandles_def)
      then have ref: "safetyNetNextBallTimeout s = Some h"
        using assms by (auto simp: slot_inv_def split: option.splits)
      then obtain a where a: "pendingNextBallAction s = Some a"
        using assms by (auto simp: slot_inv_def)
      have twice: "clearTimeout h (clearTimeout h s) = clearTimeout h s"
        by (simp add: clearTimeout_def)
      have eq: "consumeAndRun (clearTimeout h s) =
          emit (RunAction a)
            ((clearTimeout h s)\<lparr>pendingNextBallAction := None, safetyNetNextBallTimeout := None\<rparr>)"
        using a ref by (simp add: consumeAndRun_def twice Let_def) (simp add: clearTimeout_def emit_def)
      have "slot_inv (consumeAndRun (clearTimeout h s))"
        unfolding eq by (rule slot_inv_cong [OF slot_cleared [OF assms ref]]) (simp_all add: emit_def)
      moreover have "runs (consumeAndRun (clearTimeout h s)) = runs s @ [a]"
        unfolding eq by simp
      ultimately show ?thesis
        using Some SafetyNetTimer a by (simp add: fireTimeout_def slotStep_def)
    qed
  qed
  then show "slotStep s (fireTimeout h e s)"
    and "safetyNetNextBallTimeout s = Some h \<Longrightarrow> pendingNextBallAction (fireTimeout h e s) = None"
    by simp_all
qed

lemma setPendingAction_slot:
  assumes "slot_inv s"
  shows "slot_inv (setPendingAction fn s)"
    and "pendingNextBallAction (setPendingAction fn s) = Some fn"
    and "safetyNetNextBallTimeout (setPendingAction fn s) = Some (nextHandle s)"
    and "runs (setPendingAction fn s) = runs s"
proof -
  have ok: "handles_ok s" using assms by (simp add: slot_inv_def)
  show "pendingNextBallAction (setPendingAction fn s) = Some fn"
    and "safetyNetNextBallTimeout (setPendingAction fn s) = Some (nextHandle s)"
    and "runs (setPendingAction fn s) = runs s"
    by (simp_all add: setPendingAction_def setTimeout_def runs_def Let_def split: option.splits)
  show "slot_inv (setPendingAction fn s)"
  proof (cases "safetyNetNextBallTimeout s")
    case None
    then show ?thesis using assms
      by (auto simp: setPendingAction_def setTimeout_def slot_inv_def handles_ok_def
            pollHandles_def safetyHandles_def list_all_iff Let_def)
  next
    case (Some h)
    have c: "slot_inv ((clearTimeout h s)\<lparr>pendingNextBallAction := None, safetyNetNextBallTimeout := None\<rparr>)"
      by (rule slot_cleared [OF assms Some])
    then show ?thesis using Some
      by (auto simp: setPendingAction_def setTimeout_def slot_inv_def handles_ok_def
            pollHandles_def safetyHandles_def list_all_iff Let_def)
  qed
qed

lemma onmessage_end_slot_upd:
  assumes "slot_inv s" and "timers s' = timers s" and "nextHandle s' = nextHandle s"
    and "audioCompletionCheckTimeout s' = audioCompletionCheckTimeout s"
    and "safetyNetNextBallTimeout s' = safetyNetNextBallTimeout s"
    and "pendingNextBallAction s' = pendingNextBallAction s" and "runs s' = runs s"
  shows "slotStep s (onmessage_end cs e tc s')"
  by (cases tc) (simp_all add: schedule_slot_upd [OF assms] slotStep_upd [OF assms])

lemma resume_slot_upd:
  assumes "slot_inv s" and "timers s' = timers s" and "nextHandle s' = nextHandle s"
    and "audioCompletionCheckTimeout s' = audioCompletionCheckTimeout s"
    and "safetyNetNextBallTimeout s' = safetyNetNextBallTimeout s"
    and "pendingNextBallAction s' = pendingNextBallAction s" and "runs s' = runs s"
  shows "slotStep s (fst (onmessage_resume dec e k s'))"
proof (cases "dec (chunkData k)")
  case (Inl err)
  then show ?thesis
    by (simp add: resume_failed [where dec = dec and k = k and err = err] slotStep_upd [OF assms])
next
  case (Inr d)
  let ?s5 = "s'\<lparr>nextStartTime := nextStartTime s' + d, commentaryStatus := stSpeaking,
                log := log s' @ [Start (nextStartTime s') d]\<rparr>"
  have "runs ?s5 = runs s'" by (simp add: runs_def map_filter_def)
  then have r: "runs ?s5 = runs s" by (simp add: assms(7))
  have "slotStep s (onmessage_end (capturedStatus k) e (completesTurn k) ?s5)"
    using assms(1) by (rule onmessage_end_slot_upd) (simp_all add: assms(2-6) r)
  then show ?thesis using Inr
    by (simp add: resume_ok [where dec = dec and k = k and d = d])
qed

lemma step_slot:
  assumes "slot_inv s" and "\<not> isSetPending x"
  shows "slotStep s (step dec x s)"
proof -
  obtain cs e ev where x: "x = (cs, e, ev)" by (cases x)
  show ?thesis
  proof (cases ev)
    case Open
    have "slotStep s (onopen s)"
      using assms(1) by (rule slotStep_upd) (simp_all add: onopen_def setCommentaryStatus_def runs_def)
    then show ?thesis using Open by (simp add: x)
  next
    case (Message msg)
    have "slotStep s (onmessage cs e msg s)"
    proof (cases "modelTurn msg")
      case None
      then show ?thesis using assms(1) by (simp add: onmessage_def schedule_slot slotStep_refl)
    next
      case (Some parts)
      show ?thesis
      proof (cases "audioPayload parts")
        case None
        have "slotStep s (onmessage_end cs e (turnComplete msg) s)"
          using assms(1) by (rule onmessage_end_slot_upd) simp_all
        then show ?thesis using None \<open>modelTurn msg = Some parts\<close> by (simp add: onmessage_def)
      next
        case (Some p)
        show ?thesis
        proof (cases "audioCtx e = Some Running")
          case True
          show ?thesis
            unfolding onmessage_suspends [OF \<open>modelTurn msg = Some parts\<close> Some True]
            using assms(1) by (rule slotStep_upd) (simp_all add: runs_def)
        next
          case False
          have "slotStep s (onmessage_end cs e (turnComplete msg) s)"
            using assms(1) by (rule onmessage_end_slot_upd) simp_all
          then show ?thesis using False Some \<open>modelTurn msg = Some parts\<close>
            by (simp add: onmessage_def)
        qed
      qed
    qed
    then show ?thesis using Message by (simp add: x)
  next
    case (Decoded i)
    have "slotStep s (fst (decoded dec i e s))"
    proof (cases "i < length (awaiting s)")
      case True
      have "slotStep s (fst (onmessage_resume dec e (awaiting s ! i)
              (s\<lparr>awaiting := take i (awaiting s) @ drop (Suc i) (awaiting s)\<rparr>)))"
        using assms(1) by (rule resume_slot_upd) (simp_all add: runs_def)
      then show ?thesis using True by (simp add: decoded_def)
    next
      case False
      then show ?thesis using assms(1) by (simp add: decoded_def slotStep_refl)
    qed
    then show ?thesis using Decoded by (simp add: x)
  next
    case ErrorEvent
    have "slotStep s (onerror cs e s)"
      unfolding onerror_def using assms(1)
      by (rule schedule_slot_upd) (simp_all add: setCommentaryStatus_def runs_def)
    then show ?thesis using ErrorEvent by (simp add: x)
  next
    case CloseEvent
    have "slotStep s (onclose cs e s)"
      unfolding onclose_def using assms(1)
      by (rule schedule_slot_upd) (simp_all add: setCommentaryStatus_def runs_def)
    then show ?thesis using CloseEvent by (simp add: x)
  next
    case (Trigger apiKey prompt sendOk)
    have c: "slotStep s (scheduleAudioCompletionCheck cs r e
        ((setCommentaryStatus v (setCommentaryStatus w s))\<lparr>isAudioPlaying := False\<rparr>))" for r v w
      using assms(1) by (rule schedule_slot_upd) (simp_all add: setCommentaryStatus_def runs_def)
    have c2: "slotStep s (scheduleAudioCompletionCheck cs r e
        ((setCommentaryStatus u (setCommentaryStatus v (setCommentaryStatus w s)))\<lparr>isAudioPlaying := False\<rparr>))" for r u v w
      using assms(1) by (rule schedule_slot_upd) (simp_all add: setCommentaryStatus_def runs_def)
    have k: "slotStep s (setCommentaryStatus v s)" for v
      using assms(1) by (rule slotStep_upd) (simp_all add: setCommentaryStatus_def runs_def)
    have k2: "slotStep s (emit (SendRealtimeInput p) (setCommentaryStatus v (setCommentaryStatus w s)))" for v w p
      using assms(1)
      by (rule slotStep_upd) (simp_all add: setCommentaryStatus_def emit_def runs_def map_filter_def)
    show ?thesis using assms(1)
      by (simp add: x Trigger triggerDynamicCommentary_def Let_def c c2 k k2 slotStep_refl
            split: sum.splits)
  next
    case (TimerFire h)
    then show ?thesis using fireTimeout_slot(1) [OF assms(1)] by (simp add: x)
  next
    case (SetPending fn)
    then show ?thesis using assms(2) by (simp add: x)
  qed
qed

lemma slotStep_trans:
  "slotStep s s1 \<Longrightarrow> slotStep s1 s2 \<Longrightarrow> slotStep s s2"
  by (auto simp: slotStep_def split: option.splits)

lemma run_slot:
  "slot_inv s \<Longrightarrow> list_all (\<lambda>x. \<not> isSetPending x) xs \<Longrightarrow> slotStep s (run dec xs s)"
proof (induction xs arbitrary: s)
  case Nil
  then show ?case by (simp add: slotStep_refl)
next
  case (Cons x xs)
  have 1: "slotStep s (step dec x s)"
    using Cons.prems by (intro step_slot) simp_all
  then have "slot_inv (step dec x s)" by (simp add: slotStep_def)
  then have "slotStep (step dec x s) (run dec xs (step dec x s))"
    using Cons.prems by (intro Cons.IH) simp_all
  with 1 show ?case by (simp add: slotStep_trans)
qed

lemma step_forced:
  assumes "slot_inv s" and "forcesRun h x" and "safetyNetNextBallTimeout s = Some h"
  shows "pendingNextBallAction (step dec x s) = None"
proof -
  obtain cs e ev where x: "x = (cs, e, ev)" by (cases x)
  show ?thesis
    using assms fireTimeout_slot(2) [OF assms(1), of h e]
    by (cases ev) (simp_all add: x onerror_def onclose_def schedule_idle(2))
qed

lemma run_forced:
  "slot_inv s \<Longrightarrow> list_all (\<lambda>x. \<not> isSetPending x) xs \<Longrightarrow> list_ex (forcesRun h) xs \<Longrightarrow>
   safetyNetNextBallTimeout s = Some h \<Longrightarrow> pendingNextBallAction (run dec xs s) = None"
proof (induction xs arbitrary: s)
  case Nil
  then show ?case by simp
next
  case (Cons x xs)
  let ?s1 = "step dec x s"
  have 1: "slotStep s ?s1"
    using Cons.prems by (intro step_slot) simp_all
  then have inv1: "slot_inv ?s1" by (simp add: slotStep_def)
  have rest: "slotStep ?s1 (run dec xs ?s1)"
    using inv1 Cons.prems by (intro run_slot) simp_all
  have stays: "pendingNextBallAction ?s1 = None \<Longrightarrow> pendingNextBallAction (run dec xs ?s1) = None"
    using rest by (auto simp: slotStep_def)
  show ?case
  proof (cases "pendingNextBallAction ?s1 = None")
    case True
    then show ?thesis using stays by simp
  next
    case False
    then have nf: "\<not> forcesRun h x"
      using step_forced [OF Cons.prems(1) _ Cons.prems(4), of x dec] by auto
    have "safetyNetNextBallTimeout ?s1 = Some h"
      using 1 False Cons.prems(4) by (auto simp: slotStep_def)
    then have "pendingNextBallAction (run dec xs ?s1) = None"
      using inv1 Cons.prems nf by (intro Cons.IH) simp_all
    then show ?thesis by simp
  qed
qed

lemma slot_inv_mounted: "slot_inv mounted"
  by (simp add: slot_inv_def handles_ok_def pollHandles_def safetyHandles_def mounted_def)

text \<open>
  Claim C1. After one setting of the pending action, and until the next setting, the
  action is called at most once, whatever the events and their order: either the slot
  still holds it, none was called and the safety-net timeout is still pending, or the
  slot is empty, the action was called exactly once and no safety-net timeout is left.
  The path of the detector empties the slot and cancels the safety-net timeout before it
  calls the action. Once the safety-net timeout has come due, or a transport error or the
  end of the session has been handled, the action has been called exactly once, whichever
  of the detector and the safety net was first.
\<close>

theorem pending_action_runs_once:
  assumes "slot_inv s" and "list_all (\<lambda>x. \<not> isSetPending x) xs"
  shows "runs (setPendingAction a s) = runs s
       \<and> pendingNextBallAction (setPendingAction a s) = Some a
       \<and> safetyNetNextBallTimeout (setPendingAction a s) = Some (nextHandle s)
       \<and> runPendingNextBallAction (setPendingAction a s) =
           emit (RunAction a)
             ((clearTimeout (nextHandle s) (setPendingAction a s))
                \<lparr>pendingNextBallAction := None, safetyNetNextBallTimeout := None\<rparr>)
       \<and> (pendingNextBallAction (run dec xs (setPendingAction a s)) = Some a
            \<and> runs (run dec xs (setPendingAction a s)) = runs s
            \<and> safetyHandles (run dec xs (setPendingAction a s)) = [nextHandle s]
          \<or> pendingNextBallAction (run dec xs (setPendingAction a s)) = None
            \<and> runs (run dec xs (setPendingAction a s)) = runs s @ [a]
            \<and> safetyNetNextBallTimeout (run dec xs (setPendingAction a s)) = None
            \<and> safetyHandles (run dec xs (setPendingAction a s)) = [])
       \<and> (list_ex (forcesRun (nextHandle s)) xs \<longrightarrow>
            pendingNextBallAction (run dec xs (setPendingAction a s)) = None
            \<and> runs (run dec xs (setPendingAction a s)) = runs s @ [a])
       \<and> slot_inv (run dec xs (setPendingAction a s))
       \<and> slot_inv (mounted :: 'a hook)"
proof -
  let ?s1 = "setPendingAction a s"
  let ?s2 = "run dec xs ?s1"
  note sp = setPendingAction_slot [OF assms(1), of a]
  have pos: "0 < nextHandle s"
    using assms(1) by (simp add: slot_inv_def handles_ok_def)
  have detector: "runPendingNextBallAction ?s1 =
      emit (RunAction a)
        ((clearTimeout (nextHandle s) ?s1)\<lparr>pendingNextBallAction := None, safetyNetNextBallTimeout := None\<rparr>)"
    using sp(2,3) pos by (simp add: runPendingNextBallAction_def clearTimeout_def emit_def Let_def)
  have st: "slotStep ?s1 ?s2"
    using sp(1) assms(2) by (rule run_slot)
  then have inv2: "slot_inv ?s2" by (simp add: slotStep_def)
  have cases: "pendingNextBallAction ?s2 = Some a \<and> runs ?s2 = runs s
            \<and> safetyHandles ?s2 = [nextHandle s]
          \<or> pendingNextBallAction ?s2 = None \<and> runs ?s2 = runs s @ [a]
            \<and> safetyNetNextBallTimeout ?s2 = None \<and> safetyHandles ?s2 = []"
    using st inv2 sp(2-4) by (auto simp: slotStep_def slot_inv_def)
  have forced: "pendingNextBallAction ?s2 = None \<and> runs ?s2 = runs s @ [a]"
    if "list_ex (forcesRun (nextHandle s)) xs"
  proof -
    have "pendingNextBallAction ?s2 = None"
      using sp(1) assms(2) that sp(3) by (rule run_forced)
    then show ?thesis using cases by simp
  qed
  show ?thesis
    using sp(2-4) detector cases forced inv2 slot_inv_mounted by blast
qed

theorem pending_action_runs_once_witness:
  "slot_inv (mounted :: nat hook)
   \<and> runs (run (decodeTable []) [([], running_at 1, ErrorEvent), ([], running_at 2, TimerFire 1)]
        (setPendingAction 7 (mounted :: nat hook))) = [7]
   \<and> runs (run (decodeTable []) [([], running_at 2, TimerFire 1), ([], running_at 3, CloseEvent)]
        (setPendingAction 7 (mounted :: nat hook))) = [7]"
proof -
  have inv: "slot_inv (mounted :: nat hook)" by (rule slot_inv_mounted)
  have n: "nextHandle (mounted :: nat hook) = 1" and r: "runs (mounted :: nat hook) = []"
    by (simp_all add: mounted_def runs_def map_filter_def)
  let ?xs = "[([], running_at 1, ErrorEvent), ([], running_at 2, TimerFire 1)]
      :: (string \<times> env \<times> nat event) list"
  let ?ys = "[([], running_at 2, TimerFire 1), ([], running_at 3, CloseEvent)]
      :: (string \<times> env \<times> nat event) list"
  have x: "list_all (\<lambda>x. \<not> isSetPending x) ?xs" "list_ex (forcesRun 1) ?xs" by simp_all
  have y: "list_all (\<lambda>x. \<not> isSetPending x) ?ys" "list_ex (forcesRun 1) ?ys" by simp_all
  note t = pending_action_runs_once [OF inv x(1), of 7 "decodeTable []",
      THEN conjunct2, THEN conjunct2, THEN conjunct2, THEN conjunct2, THEN conjunct2, THEN conjunct1]
  note u = pending_action_runs_once [OF inv y(1), of 7 "decodeTable []",
      THEN conjunct2, THEN conjunct2, THEN conjunct2, THEN conjunct2, THEN conjunct2, THEN conjunct1]
  from t x(2) have a: "runs (run (decodeTable []) ?xs (setPendingAction 7 (mounted :: nat hook))) = [7]"
    by (simp add: n r)
  from u y(2) have b: "runs (run (decodeTable []) ?ys (setPendingAction 7 (mounted :: nat hook))) = [7]"
    by (simp add: n r)
  from inv a b show ?thesis by simp
qed

subsection \<open>The status decides nothing but itself\<close>

lemma sched_fields [simp]:
  "isAudioPlaying (sched s) = isAudioPlaying s"
  "nextStartTime (sched s) = nextStartTime s"
  "isLiveSessionReady (sched s) = isLiveSessionReady s"
  "liveSession (sched s) = liveSession s"
  "pendingNextBallAction (sched s) = pendingNextBallAction s"
  "audioCompletionCheckTimeout (sched s) = audioCompletionCheckTimeout s"
  "safetyNetNextBallTimeout (sched s) = safetyNetNextBallTimeout s"
  "nextHandle (sched s) = nextHandle s"
  "log (sched s) = log s"
  "commentaryStatus (sched s) = []"
  "timers (sched s) = map (\<lambda>kt. (fst kt, stripCaptured (snd kt))) (timers s)"
  "awaiting (sched s) = map (\<lambda>k. k\<lparr>capturedStatus := []\<rparr>) (awaiting s)"
  by (simp_all add: sched_def)

lemma stripCaptured_idem [simp]: "stripCaptured (stripCaptured t) = stripCaptured t"
  by (cases t) simp_all

lemma sched_idem [simp]: "sched (sched s) = sched s"
  by (simp add: sched_def comp_def)

lemma sched_status [simp]:
  "sched (setCommentaryStatus v s) = sched s"
  "sched (s\<lparr>commentaryStatus := v\<rparr>) = sched s"
  by (simp_all add: sched_def setCommentaryStatus_def)

lemma sched_upd [simp]:
  "sched (s\<lparr>isAudioPlaying := b\<rparr>) = (sched s)\<lparr>isAudioPlaying := b\<rparr>"
  "sched (s\<lparr>nextStartTime := c\<rparr>) = (sched s)\<lparr>nextStartTime := c\<rparr>"
  "sched (s\<lparr>isLiveSessionReady := b\<rparr>) = (sched s)\<lparr>isLiveSessionReady := b\<rparr>"
  "sched (s\<lparr>liveSession := b\<rparr>) = (sched s)\<lparr>liveSession := b\<rparr>"
  "sched (s\<lparr>pendingNextBallAction := pa\<rparr>) = (sched s)\<lparr>pendingNextBallAction := pa\<rparr>"
  "sched (s\<lparr>audioCompletionCheckTimeout := ac\<rparr>) = (sched s)\<lparr>audioCompletionCheckTimeout := ac\<rparr>"
  "sched (s\<lparr>safetyNetNextBallTimeout := sn\<rparr>) = (sched s)\<lparr>safetyNetNextBallTimeout := sn\<rparr>"
  "sched (s\<lparr>awaiting := ks\<rparr>) = (sched s)\<lparr>awaiting := map (\<lambda>k. k\<lparr>capturedStatus := []\<rparr>) ks\<rparr>"
  "sched (emit ef s) = emit ef (sched s)"
  "sched (clearTimeout h s) = clearTimeout h (sched s)"
  "sched (snd (setTimeout t s)) = snd (setTimeout (stripCaptured t) (sched s))"
  by (simp_all add: sched_def emit_def clearTimeout_def setTimeout_def filter_map comp_def)

lemma sched_runPending: "sched (runPendingNextBallAction s) = runPendingNextBallAction (sched s)"
  by (simp add: runPendingNextBallAction_def Let_def split: option.splits)

lemma sched_consumeAndRun: "sched (consumeAndRun s) = consumeAndRun (sched s)"
  by (simp add: consumeAndRun_def Let_def split: option.splits)

lemma sched_setPendingAction: "sched (setPendingAction fn s) = setPendingAction fn (sched s)"
  by (simp add: setPendingAction_def Let_def split_beta split: option.splits)

lemma sched_check: "sched (performCheckAndAct cs e s) = sched (performCheckAndAct [] e (sched s))"
  by (simp add: performCheckAndAct_def Let_def split_beta sched_runPending readyOrDisconnected_def)

lemma sched_schedule:
  "sched (scheduleAudioCompletionCheck cs r e s) = sched (scheduleAudioCompletionCheck [] r e (sched s))"
proof -
  let ?c = "\<lambda>s. case audioCompletionCheckTimeout s of
               None \<Rightarrow> s
             | Some h \<Rightarrow> if h \<noteq> 0 then (clearTimeout h s)\<lparr>audioCompletionCheckTimeout := None\<rparr> else s"
  have "sched (?c s) = ?c (sched s)" by (simp split: option.splits)
  then show ?thesis
    unfolding scheduleAudioCompletionCheck_def
    by (subst sched_check) simp
qed

lemma emit_fields [simp]:
  "nextStartTime (emit ef s) = nextStartTime s"
  "isAudioPlaying (emit ef s) = isAudioPlaying s"
  "commentaryStatus (emit ef s) = commentaryStatus s"
  "timers (emit ef s) = timers s"
  "nextHandle (emit ef s) = nextHandle s"
  "log (emit ef s) = log s @ [ef]"
  by (simp_all add: emit_def)

lemma sched_schedule_upd:
  assumes "sched s1 = sched s2"
  shows "sched (scheduleAudioCompletionCheck cs r e s1) = sched (scheduleAudioCompletionCheck cs' r e s2)"
  using sched_schedule [of cs r e s1] sched_schedule [of cs' r e s2] assms by simp

lemma sched_onmessage_end:
  assumes "sched s1 = sched s2"
  shows "sched (onmessage_end cs e tc s1) = sched (onmessage_end cs' e tc s2)"
  using assms by (cases tc) (simp_all add: sched_schedule_upd)

lemma sched_onmessage:
  "sched (onmessage cs e msg s) = sched (onmessage [] e msg (sched s))"
proof (cases "modelTurn msg")
  case None
  then show ?thesis
    using sched_schedule_upd [of s "sched s" cs _ e "[]"] by (simp add: onmessage_def)
next
  case (Some parts)
  have en: "sched (onmessage_end cs e (turnComplete msg) s)
      = sched (onmessage_end [] e (turnComplete msg) (sched s))"
    by (rule sched_onmessage_end) simp
  show ?thesis
  proof (cases "audioPayload parts")
    case None
    then show ?thesis using \<open>modelTurn msg = Some parts\<close> en by (simp add: onmessage_def)
  next
    case (Some p)
    show ?thesis
    proof (cases "audioCtx e = Some Running")
      case True
      show ?thesis
        unfolding onmessage_suspends [OF \<open>modelTurn msg = Some parts\<close> Some True]
        by simp
    next
      case False
      then show ?thesis using Some \<open>modelTurn msg = Some parts\<close> en
        by (simp add: onmessage_def)
    qed
  qed
qed

lemma sched_resume:
  "sched (fst (onmessage_resume dec e k s))
     = sched (fst (onmessage_resume dec e (k\<lparr>capturedStatus := []\<rparr>) (sched s)))"
  "snd (onmessage_resume dec e k s)
     = snd (onmessage_resume dec e (k\<lparr>capturedStatus := []\<rparr>) (sched s))"
proof -
  show "snd (onmessage_resume dec e k s)
     = snd (onmessage_resume dec e (k\<lparr>capturedStatus := []\<rparr>) (sched s))"
    by (simp add: onmessage_resume_def Let_def split: sum.splits)
  show "sched (fst (onmessage_resume dec e k s))
     = sched (fst (onmessage_resume dec e (k\<lparr>capturedStatus := []\<rparr>) (sched s)))"
  proof (cases "dec (chunkData k)")
    case (Inl err)
    then show ?thesis by (simp add: onmessage_resume_def)
  next
    case (Inr d)
    have "sched (onmessage_end (capturedStatus k) e (completesTurn k)
             (setCommentaryStatus stSpeaking
               ((emit (Start (nextStartTime s) d) s)\<lparr>nextStartTime := nextStartTime s + d\<rparr>)))
        = sched (onmessage_end [] e (completesTurn k)
             (setCommentaryStatus stSpeaking
               ((emit (Start (nextStartTime s) d) (sched s))\<lparr>nextStartTime := nextStartTime s + d\<rparr>)))"
      by (rule sched_onmessage_end) simp
    then show ?thesis using Inr by (simp add: onmessage_resume_def Let_def)
  qed
qed

lemma sched_decoded:
  "sched (fst (decoded dec i e s)) = sched (fst (decoded dec i e (sched s)))"
  "snd (decoded dec i e s) = snd (decoded dec i e (sched s))"
proof -
  let ?f = "\<lambda>k :: awaited. k\<lparr>capturedStatus := []\<rparr>"
  let ?s0 = "s\<lparr>awaiting := take i (awaiting s) @ drop (Suc i) (awaiting s)\<rparr>"
  have s0: "(sched s)\<lparr>awaiting := take i (awaiting (sched s)) @ drop (Suc i) (awaiting (sched s))\<rparr>
      = sched ?s0"
    by (simp add: take_map drop_map)
  have d: "decoded dec i e (sched s) =
      (if i < length (awaiting s)
       then onmessage_resume dec e (?f (awaiting s ! i)) (sched ?s0)
       else (sched s, None))"
    unfolding decoded_def s0 by simp
  show "sched (fst (decoded dec i e s)) = sched (fst (decoded dec i e (sched s)))"
    unfolding d using sched_resume(1) [of dec e "awaiting s ! i" ?s0]
    by (simp add: decoded_def)
  show "snd (decoded dec i e s) = snd (decoded dec i e (sched s))"
    unfolding d using sched_resume(2) [of dec e "awaiting s ! i" ?s0]
    by (simp add: decoded_def)
qed

lemma sched_uninterrupted:
  assumes "sched s = sched s'"
  shows "snd (onmessage_uninterrupted dec cs e e' msg s)
       = snd (onmessage_uninterrupted dec cs' e e' msg s')"
proof -
  let ?s1 = "onmessage cs e msg s" and ?s1' = "onmessage cs' e msg s'"
  have 1: "sched ?s1 = sched ?s1'"
    using sched_onmessage [of cs e msg s] sched_onmessage [of cs' e msg s'] assms by simp
  have "length (awaiting (sched s)) = length (awaiting (sched s'))"
    and "length (awaiting (sched ?s1)) = length (awaiting (sched ?s1'))"
    by (simp_all only: assms 1)
  then have l: "length (awaiting s) = length (awaiting s')"
    "length (awaiting ?s1) = length (awaiting ?s1')"
    by simp_all
  have "snd (decoded dec n e' ?s1) = snd (decoded dec n e' ?s1')" for n
    using sched_decoded(2) [of dec n e' ?s1] sched_decoded(2) [of dec n e' ?s1'] 1 by simp
  then show ?thesis by (simp add: onmessage_uninterrupted_def Let_def l)
qed

lemma sched_trigger:
  "sched (snd (triggerDynamicCommentary apiKey prompt sendOk cs e s))
     = sched (snd (triggerDynamicCommentary apiKey prompt sendOk [] e (sched s)))"
  "fst (triggerDynamicCommentary apiKey prompt sendOk cs e s)
     = fst (triggerDynamicCommentary apiKey prompt sendOk [] e (sched s))"
proof -
  show "sched (snd (triggerDynamicCommentary apiKey prompt sendOk cs e s))
     = sched (snd (triggerDynamicCommentary apiKey prompt sendOk [] e (sched s)))"
    by (auto simp: triggerDynamicCommentary_def Let_def split: sum.splits
          intro!: sched_schedule_upd)
  show "fst (triggerDynamicCommentary apiKey prompt sendOk cs e s)
     = fst (triggerDynamicCommentary apiKey prompt sendOk [] e (sched s))"
    by (simp add: triggerDynamicCommentary_def Let_def split: sum.splits)
qed

lemma map_of_stripped:
  "map_of (map (\<lambda>kt. (fst kt, stripCaptured (snd kt))) ts) h = map_option stripCaptured (map_of ts h)"
  by (induction ts) auto

lemma sched_fireTimeout: "sched (fireTimeout h e s) = sched (fireTimeout h e (sched s))"
proof (cases "map_of (timers s) h")
  case None
  then show ?thesis by (simp add: fireTimeout_def map_of_stripped)
next
  case (Some t)
  show ?thesis
  proof (cases t)
    case (PollTimer cs ms)
    then show ?thesis
      using Some sched_check [of cs e "clearTimeout h s"]
      by (simp add: fireTimeout_def map_of_stripped)
  next
    case SafetyNetTimer
    then show ?thesis using Some
      by (simp add: fireTimeout_def map_of_stripped sched_consumeAndRun)
  qed
qed

lemma sched_step: "sched (step dec x s) = sched (step dec (blind x) (sched s))"
proof -
  obtain cs e ev where x: "x = (cs, e, ev)" by (cases x)
  show ?thesis
  proof (cases ev)
    case ErrorEvent
    have "sched (onerror cs e s) = sched (onerror [] e (sched s))"
      unfolding onerror_def by (rule sched_schedule_upd) simp
    then show ?thesis using ErrorEvent by (simp add: x blind_def unstatus_def)
  next
    case CloseEvent
    have "sched (onclose cs e s) = sched (onclose [] e (sched s))"
      unfolding onclose_def by (rule sched_schedule_upd) simp
    then show ?thesis using CloseEvent by (simp add: x blind_def unstatus_def)
  next
    case Open
    then show ?thesis by (simp add: x blind_def unstatus_def onopen_def)
  next
    case (Message msg)
    then show ?thesis
      using sched_onmessage [of cs e msg s] by (simp add: x blind_def unstatus_def)
  next
    case (Decoded i)
    then show ?thesis
      using sched_decoded(1) [of dec i e s] by (simp add: x blind_def unstatus_def)
  next
    case (Trigger apiKey prompt sendOk)
    then show ?thesis
      using sched_trigger(1) [of apiKey prompt sendOk cs e s] by (simp add: x blind_def unstatus_def)
  next
    case (TimerFire h)
    then show ?thesis
      using sched_fireTimeout [of h e s] by (simp add: x blind_def unstatus_def)
  next
    case (SetPending fn)
    then show ?thesis by (simp add: x blind_def unstatus_def sched_setPendingAction)
  qed
qed

lemma sched_run:
  "sched s = sched s' \<Longrightarrow> map unstatus xs = map unstatus ys \<Longrightarrow>
   sched (run dec xs s) = sched (run dec ys s')"
proof (induction xs arbitrary: ys s s')
  case Nil
  then show ?case by simp
next
  case (Cons x xs)
  then obtain y ys' where ys: "ys = y # ys'" and xy: "unstatus x = unstatus y"
    and rest: "map unstatus xs = map unstatus ys'"
    by (cases ys) auto
  have "sched (step dec x s) = sched (step dec (blind x) (sched s))"
    by (rule sched_step)
  also have "\<dots> = sched (step dec (blind y) (sched s'))"
    using xy Cons.prems(1) by (simp add: blind_def)
  also have "\<dots> = sched (step dec y s')"
    by (rule sched_step [symmetric])
  finally have "sched (run dec xs (step dec x s)) = sched (run dec ys' (step dec y s'))"
    using rest by (rule Cons.IH)
  then show ?case by (simp add: ys)
qed

lemma check_status:
  "commentaryStatus (performCheckAndAct cs e s) =
     (if \<not> isAudioPlaying s \<or> audioCtx e \<noteq> Some Running
      then (if prefix stSpeakingPrefix cs then readyOrDisconnected s else commentaryStatus s)
      else if nextStartTime s - MARGIN_SECONDS \<le> currentTime e then readyOrDisconnected s
      else commentaryStatus s)"
proof (cases rule: check_cases [of cs e s])
  case (declared s0)
  show ?thesis
  proof (cases "\<not> isAudioPlaying s \<or> audioCtx e \<noteq> Some Running")
    case True
    then show ?thesis by (simp add: check_idle)
  next
    case False
    then show ?thesis using declared(8) by (simp add: check_done)
  qed
next
  case waiting
  then show ?thesis by simp
qed

text \<open>
  Against claim C9 as stated: the same check on the same state sets the status when the
  status its closure captured starts with the speaking prefix, and leaves it when the
  captured status is another one. The status is read, and decides.
\<close>

theorem status_output_only_counterexample:
  "commentaryStatus (performCheckAndAct stSpeaking (running_at 0)
      ((mounted :: unit hook)\<lparr>commentaryStatus := stSpeaking\<rparr>)) = stLiveDisconnected
   \<and> commentaryStatus (performCheckAndAct stSending (running_at 0)
      ((mounted :: unit hook)\<lparr>commentaryStatus := stSpeaking\<rparr>)) = stSpeaking
   \<and> stLiveDisconnected \<noteq> stSpeaking"
  by (simp add: check_status mounted_def readyOrDisconnected_def)
    (simp add: stSpeakingPrefix_def stSpeaking_def stSending_def stLiveDisconnected_def
      mic_def balloon_def warn_def)

text \<open>
  Claim C9, amended. No scheduling decision depends on the status: two runs over the same
  events that differ only in the status, the current one and the one the closures
  captured, agree on everything but the status, so on the cursor, the playing flag, the
  pending action, the handles of the pending timeouts and the log of the started chunks
  and called actions; the handlers return the same results. The status is read in one
  place, the idle branch of a completion check, which tests whether the captured status
  starts with the speaking prefix to decide whether to set the status; only the status
  depends on that test.
\<close>

theorem status_decides_only_itself:
  assumes "sched s = sched s'" and "map unstatus xs = map unstatus ys"
  shows "sched (run dec xs s) = sched (run dec ys s')
       \<and> nextStartTime (run dec xs s) = nextStartTime (run dec ys s')
       \<and> isAudioPlaying (run dec xs s) = isAudioPlaying (run dec ys s')
       \<and> pendingNextBallAction (run dec xs s) = pendingNextBallAction (run dec ys s')
       \<and> log (run dec xs s) = log (run dec ys s')
       \<and> map fst (timers (run dec xs s)) = map fst (timers (run dec ys s'))
       \<and> snd (onmessage_uninterrupted dec cs e e' msg s)
           = snd (onmessage_uninterrupted dec cs' e e' msg s')
       \<and> fst (triggerDynamicCommentary apiKey prompt sendOk cs e s)
           = fst (triggerDynamicCommentary apiKey prompt sendOk cs' e s')
       \<and> commentaryStatus (performCheckAndAct cs e s) =
           (if \<not> isAudioPlaying s \<or> audioCtx e \<noteq> Some Running
            then (if prefix stSpeakingPrefix cs then readyOrDisconnected s else commentaryStatus s)
            else if nextStartTime s - MARGIN_SECONDS \<le> currentTime e then readyOrDisconnected s
            else commentaryStatus s)
       \<and> snd (decoded dec i e s) = snd (decoded dec i e s')"
proof -
  have r: "sched (run dec xs s) = sched (run dec ys s')"
    using assms by (rule sched_run)
  have "nextStartTime (sched (run dec xs s)) = nextStartTime (sched (run dec ys s'))"
    and "isAudioPlaying (sched (run dec xs s)) = isAudioPlaying (sched (run dec ys s'))"
    and "pendingNextBallAction (sched (run dec xs s)) = pendingNextBallAction (sched (run dec ys s'))"
    and "log (sched (run dec xs s)) = log (sched (run dec ys s'))"
    and "map fst (timers (sched (run dec xs s))) = map fst (timers (sched (run dec ys s')))"
    by (simp_all only: r)
  then have f: "nextStartTime (run dec xs s) = nextStartTime (run dec ys s')"
    "isAudioPlaying (run dec xs s) = isAudioPlaying (run dec ys s')"
    "pendingNextBallAction (run dec xs s) = pendingNextBallAction (run dec ys s')"
    "log (run dec xs s) = log (run dec ys s')"
    "map fst (timers (run dec xs s)) = map fst (timers (run dec ys s'))"
    by (simp_all add: comp_def)
  have m: "snd (onmessage_uninterrupted dec cs e e' msg s)
           = snd (onmessage_uninterrupted dec cs' e e' msg s')"
    using assms(1) by (rule sched_uninterrupted)
  have d: "snd (decoded dec i e s) = snd (decoded dec i e s')"
    using sched_decoded(2) [of dec i e s] sched_decoded(2) [of dec i e s'] assms(1) by simp
  have t: "fst (triggerDynamicCommentary apiKey prompt sendOk cs e s)
           = fst (triggerDynamicCommentary apiKey prompt sendOk cs' e s')"
    using sched_trigger(2) [of apiKey prompt sendOk cs e s]
      sched_trigger(2) [of apiKey prompt sendOk cs' e s'] assms(1)
    by simp
  show ?thesis using r f m t d check_status [of cs e s] by simp
qed

theorem status_decides_only_itself_witness:
  "log (run (decodeTable [(''c1'', 1)]) [(stSpeaking, running_at 10, Message (audioChunk ''c1'' True)),
       (stSpeaking, running_at 10, Decoded 0)]
      (mounted :: unit hook))
   = log (run (decodeTable [(''c1'', 1)]) [([], running_at 10, Message (audioChunk ''c1'' True)),
       ([], running_at 10, Decoded 0)]
      ((mounted :: unit hook)\<lparr>commentaryStatus := stSpeaking\<rparr>))"
proof -
  have 1: "sched (mounted :: unit hook) = sched ((mounted :: unit hook)\<lparr>commentaryStatus := stSpeaking\<rparr>)"
    by simp
  have 2: "map unstatus [(stSpeaking, running_at 10, Message (audioChunk ''c1'' True) :: unit event),
       (stSpeaking, running_at 10, Decoded 0)]
      = map unstatus [([], running_at 10, Message (audioChunk ''c1'' True)),
       ([], running_at 10, Decoded 0)]"
    by (simp add: unstatus_def)
  from status_decides_only_itself [OF 1 2, of "decodeTable [(''c1'', 1)]",
      THEN conjunct2, THEN conjunct2, THEN conjunct2, THEN conjunct2, THEN conjunct1]
  show ?thesis .
qed

subsection \<open>The two copies of the hook\<close>

lemma gc_check_eq: "gc_performCheckAndAct = (performCheckAndAct :: string \<Rightarrow> env \<Rightarrow> 'a hook \<Rightarrow> 'a hook)"
proof -
  have r: "gc_readyOrDisconnected = (readyOrDisconnected :: 'a hook \<Rightarrow> string)"
    by (rule ext) (unfold gc_readyOrDisconnected_def readyOrDisconnected_def, rule refl)
  have p: "gc_runPendingNextBallAction = (runPendingNextBallAction :: 'a hook \<Rightarrow> 'a hook)"
    by (rule ext) (unfold gc_runPendingNextBallAction_def runPendingNextBallAction_def, rule refl)
  have m: "gc_MARGIN_SECONDS = MARGIN_SECONDS" "gc_CHECK_INTERVAL_MS = CHECK_INTERVAL_MS"
    by (simp_all add: gc_MARGIN_SECONDS_def MARGIN_SECONDS_def gc_CHECK_INTERVAL_MS_def
          CHECK_INTERVAL_MS_def)
  show ?thesis
    by (intro ext) (unfold gc_performCheckAndAct_def performCheckAndAct_def r p m, rule refl)
qed

lemma gc_schedule_eq:
  "gc_scheduleAudioCompletionCheck
     = (scheduleAudioCompletionCheck :: string \<Rightarrow> string \<Rightarrow> env \<Rightarrow> 'a hook \<Rightarrow> 'a hook)"
  by (intro ext)
    (unfold gc_scheduleAudioCompletionCheck_def scheduleAudioCompletionCheck_def gc_check_eq,
      rule refl)

lemma gc_onmessage_end_eq:
  "gc_onmessage_end = (onmessage_end :: string \<Rightarrow> env \<Rightarrow> bool \<Rightarrow> 'a hook \<Rightarrow> 'a hook)"
  by (intro ext) (unfold gc_onmessage_end_def onmessage_end_def gc_schedule_eq, rule refl)

lemma gc_onmessage_eq:
  "gc_onmessage = (onmessage :: string \<Rightarrow> env \<Rightarrow> message \<Rightarrow> 'a hook \<Rightarrow> 'a hook)"
proof -
  have a: "gc_isAudioPart = isAudioPart"
    by (rule ext) (unfold gc_isAudioPart_def isAudioPart_def, rule refl)
  have b: "gc_audioPayload = audioPayload"
    by (rule ext) (unfold gc_audioPayload_def audioPayload_def a, rule refl)
  show ?thesis
    by (intro ext)
      (unfold gc_onmessage_def onmessage_def b gc_onmessage_end_eq gc_schedule_eq, rule refl)
qed

lemma gc_onmessage_resume_eq:
  "gc_onmessage_resume
     = (onmessage_resume :: (string \<Rightarrow> error + real) \<Rightarrow> env \<Rightarrow> awaited \<Rightarrow> 'a hook \<Rightarrow> 'a hook \<times> error option)"
  by (intro ext) (unfold gc_onmessage_resume_def onmessage_resume_def gc_onmessage_end_eq, rule refl)

lemma gc_decoded_eq:
  "gc_decoded
     = (decoded :: (string \<Rightarrow> error + real) \<Rightarrow> nat \<Rightarrow> env \<Rightarrow> 'a hook \<Rightarrow> 'a hook \<times> error option)"
  by (intro ext) (unfold gc_decoded_def decoded_def gc_onmessage_resume_eq, rule refl)

lemma gc_handlers_eq:
  "gc_onopen = (onopen :: 'a hook \<Rightarrow> 'a hook)"
  "gc_onerror = (onerror :: string \<Rightarrow> env \<Rightarrow> 'a hook \<Rightarrow> 'a hook)"
  "gc_onclose = (onclose :: string \<Rightarrow> env \<Rightarrow> 'a hook \<Rightarrow> 'a hook)"
  "gc_triggerDynamicCommentary
     = (triggerDynamicCommentary :: bool \<Rightarrow> error + string \<Rightarrow> bool \<Rightarrow> string \<Rightarrow> env \<Rightarrow> 'a hook \<Rightarrow> bool \<times> 'a hook)"
  "gc_fireTimeout = (fireTimeout :: nat \<Rightarrow> env \<Rightarrow> 'a hook \<Rightarrow> 'a hook)"
  by (unfold gc_onopen_def onopen_def gc_onerror_def onerror_def gc_onclose_def onclose_def
        gc_triggerDynamicCommentary_def triggerDynamicCommentary_def gc_fireTimeout_def
        fireTimeout_def gc_schedule_eq gc_check_eq, (rule refl)+)

lemma gc_step_eq: "gc_step dec x s = step dec x s"
proof -
  obtain cs e ev where x: "x = (cs, e, ev)" by (cases x)
  show ?thesis by (cases ev) (simp_all add: x gc_handlers_eq gc_onmessage_eq gc_decoded_eq)
qed

lemma gc_run_eq: "gc_run dec xs s = run dec xs s"
  by (induction xs arbitrary: s) (simp_all add: gc_step_eq)

lemma prompts_differ: "gc_initialSystemPrompt \<noteq> initialSystemPrompt"
proof
  assume "gc_initialSystemPrompt = initialSystemPrompt"
  then have "gc_initialSystemPrompt ! 9 = initialSystemPrompt ! 9" by simp
  then show False by (simp add: gc_initialSystemPrompt_def initialSystemPrompt_def)
qed

lemma gc_init_eq:
  "snd (gc_initLiveSession audioOk e conn s) = snd (initLiveSession audioOk e conn s)"
  "(fst (gc_initLiveSession audioOk e conn s))
      \<lparr>log := map forgetPrompt (log (fst (gc_initLiveSession audioOk e conn s)))\<rparr>
   = (fst (initLiveSession audioOk e conn s))
      \<lparr>log := map forgetPrompt (log (fst (initLiveSession audioOk e conn s)))\<rparr>"
  by (simp_all add: gc_initLiveSession_def initLiveSession_def Let_def emit_def
        setCommentaryStatus_def split: connect_result.splits)

text \<open>
  Claim C10. The copy of the hook in components/GameCanvas.tsx and the one in
  hooks/useLiveCommentary.ts are the same functions: on every state and every event, and
  so on every run of chunk, turn-complete, error, close and timer events with the same
  clock readings, they give the same state, hence the same chunk start times, cursor,
  playing flag and calls of the pending action. Starting a session differs in the text of
  the system instruction that is sent, and in nothing else.
\<close>

theorem copies_agree:
  "gc_run dec xs s = run dec xs s
   \<and> gc_step dec x s = step dec x s
   \<and> gc_onmessage cs e msg s = onmessage cs e msg s
   \<and> gc_onopen s = onopen s
   \<and> gc_onerror cs e s = onerror cs e s
   \<and> gc_onclose cs e s = onclose cs e s
   \<and> gc_scheduleAudioCompletionCheck cs r e s = scheduleAudioCompletionCheck cs r e s
   \<and> gc_performCheckAndAct cs e s = performCheckAndAct cs e s
   \<and> gc_triggerDynamicCommentary apiKey prompt sendOk cs e s
       = triggerDynamicCommentary apiKey prompt sendOk cs e s
   \<and> snd (gc_initLiveSession audioOk e conn s) = snd (initLiveSession audioOk e conn s)
   \<and> (fst (gc_initLiveSession audioOk e conn s))
        \<lparr>log := map forgetPrompt (log (fst (gc_initLiveSession audioOk e conn s)))\<rparr>
       = (fst (initLiveSession audioOk e conn s))
        \<lparr>log := map forgetPrompt (log (fst (initLiveSession audioOk e conn s)))\<rparr>
   \<and> gc_initialSystemPrompt \<noteq> initialSystemPrompt
   \<and> gc_onmessage_resume dec e k s = onmessage_resume dec e k s
   \<and> gc_decoded dec i e s = decoded dec i e s
   \<and> gc_onmessage_end cs e tc s = onmessage_end cs e tc s"
  using gc_run_eq [of dec xs s] gc_step_eq [of dec x s] gc_init_eq [of audioOk e conn s]
    prompts_differ
  by (simp add: gc_onmessage_eq gc_onmessage_resume_eq gc_decoded_eq gc_onmessage_end_eq
        gc_handlers_eq gc_schedule_eq gc_check_eq)

theorem copies_agree_witness:
  "gc_run (decodeTable [(''c1'', 1), (''c2'', 0.8)])
     [('''', running_at 10, Message (audioChunk ''c1'' False)),
      ('''', running_at 10, Decoded 0),
      ('''', running_at 10, Message (audioChunk ''c2'' True)),
      ('''', running_at 10, Decoded 0)]
     ((mounted :: unit hook)\<lparr>nextStartTime := 10\<rparr>) = twoChunks"
  using copies_agree [of "decodeTable [(''c1'', 1), (''c2'', 0.8)]"
      "[('''', running_at 10, Message (audioChunk ''c1'' False)),
        ('''', running_at 10, Decoded 0),
        ('''', running_at 10, Message (audioChunk ''c2'' True)),
        ('''', running_at 10, Decoded 0)]"
      "(mounted :: unit hook)\<lparr>nextStartTime := 10\<rparr>", THEN conjunct1]
  by (simp only: twoChunks_def)


end
